theory Spec2Isabelle
  imports Main "HOL-Library.Sublist"
begin

section \<open>Strings\<close>

text \<open>
  A Python \<open>str\<close> is a sequence of Unicode code points, so a string is a list of
  code points (\<open>len\<close> is \<open>length\<close>, \<open>s[:n]\<close> is \<open>take n s\<close>).  \<open>ustr\<close> reads an
  ASCII literal.  \<open>str.lower\<close> is modelled on the ASCII letters, the only ones the
  keywords and the pattern of the program contain; other code points are left as they
  are.
\<close>

type_synonym pystr = "nat list"

type_synonym bytes = "nat list"

definition ustr :: "string \<Rightarrow> pystr" where
  "ustr s = map of_char s"

definition lower_char :: "nat \<Rightarrow> nat" where
  "lower_char c = (if 65 \<le> c \<and> c \<le> 90 then c + 32 else c)"

definition lower :: "pystr \<Rightarrow> pystr" where
  "lower s = map lower_char s"

text \<open>\<open>s.endswith(suf)\<close>, and \<open>k in s\<close> on strings is \<^const>\<open>sublist\<close> \<open>k s\<close>.\<close>

definition endswith :: "pystr \<Rightarrow> pystr \<Rightarrow> bool" where
  "endswith s suf = suffix suf s"

section \<open>The relevance scorer: \<open>score_url\<close>\<close>

text \<open>The dictionary \<open>keywords\<close> of \<open>score_url\<close>, in insertion order.\<close>

definition keyword_weights :: "(pystr \<times> int) list" where
  "keyword_weights =
     [(ustr ''happy'', 5), (ustr ''hour'', 5), (ustr ''special'', 3), (ustr ''deal'', 3),
      (ustr ''menu'', 2), (ustr ''drink'', 2), (ustr ''food'', 1)]"

text \<open>The loop \<open>for k, v in keywords.items(): if k in lower: score += v\<close>.\<close>

fun score_loop :: "(pystr \<times> int) list \<Rightarrow> pystr \<Rightarrow> int \<Rightarrow> int" where
  "score_loop [] lower_url score = score"
| "score_loop ((k, v) # kvs) lower_url score =
     score_loop kvs lower_url (if sublist k lower_url then score + v else score)"

definition score_url :: "pystr \<Rightarrow> int" where
  "score_url url =
     (let score = 0;
          lower_url = lower url;
          score = score_loop keyword_weights lower_url score
      in if endswith lower_url (ustr ''.pdf'') then score + 4 else score)"

text \<open>
  The specification speaks of the path of the URL.  The path of a URL, as the generic
  URL syntax has it: what is left after the fragment, the query, the scheme and the
  authority are removed.  It is used only to compare the specification's wording with
  \<^const>\<open>score_url\<close>, which never computes a path.
\<close>

definition spec_strip_scheme :: "pystr \<Rightarrow> pystr" where
  "spec_strip_scheme s =
     (let pre = takeWhile (\<lambda>c. c \<noteq> 58) s
      in if length pre < length s \<and> pre \<noteq> [] \<and> 47 \<notin> set pre
         then drop (Suc (length pre)) s else s)"

definition spec_url_path :: "pystr \<Rightarrow> pystr" where
  "spec_url_path url =
     (let s = takeWhile (\<lambda>c. c \<noteq> 35) url;
          s = takeWhile (\<lambda>c. c \<noteq> 63) s;
          s = spec_strip_scheme s
      in if prefix [47, 47] s then dropWhile (\<lambda>c. c \<noteq> 47) (drop 2 s) else s)"


section \<open>The environment of a crawl\<close>

text \<open>
  The crawler calls \<open>requests\<close>, BeautifulSoup, pdfminer and \<open>urllib.parse\<close>.  They are
  collaborators, taken as the fields of an environment; a call that raises returns
  \<open>None\<close>.
  \<^item> \<open>requests_get_page u\<close>: \<open>requests.get(u, headers=headers, timeout=10)\<close> followed by
    \<open>raise_for_status()\<close>; the content of the response.
  \<^item> \<open>extract_text_from_html c\<close>: the function of that name; the cleaned text, and the
    \<open>href\<close> values of \<open>soup.find_all('a', href=True)\<close> on the soup it returns, in
    document order.
  \<^item> \<open>requests_get_pdf u\<close>: \<open>requests.get(u, timeout=10)\<close> and \<open>raise_for_status()\<close> in
    \<open>extract_text_from_pdf_url\<close>.
  \<^item> \<open>extract_pdf_text\<close>: pdfminer's \<open>extract_text\<close>, \<open>None\<close> when the import failed.
  \<^item> \<open>urljoin\<close> and \<open>netloc u\<close> (\<open>urlparse(u).netloc\<close>), which raise \<open>ValueError\<close> on
    some malformed inputs.
  \<^item> \<open>set_iter xs\<close>: the order in which \<open>set(xs)\<close> is iterated.  Python leaves it
    unspecified; for strings it depends on the hash seed of the process.
\<close>

record env =
  requests_get_page :: "pystr \<Rightarrow> bytes option"
  extract_text_from_html :: "bytes \<Rightarrow> (pystr \<times> pystr list) option"
  requests_get_pdf :: "pystr \<Rightarrow> bytes option"
  extract_pdf_text :: "(bytes \<Rightarrow> pystr option) option"
  urljoin :: "pystr \<Rightarrow> pystr \<Rightarrow> pystr option"
  netloc :: "pystr \<Rightarrow> pystr option"
  set_iter :: "pystr list \<Rightarrow> pystr list"

text \<open>What every iteration order of a set satisfies: each element once.\<close>

definition set_iter_ok :: "(pystr list \<Rightarrow> pystr list) \<Rightarrow> bool" where
  "set_iter_ok f = (\<forall>xs. distinct (f xs) \<and> set (f xs) = set xs)"

section \<open>\<open>find_related_pages\<close>\<close>

text \<open>
  The loop over the anchors: resolve, drop the link when its netloc differs from
  \<open>domain\<close>, else append.  \<open>None\<close> when \<open>urljoin\<close> or \<open>urlparse\<close> raises.
\<close>

fun collect_candidates ::
  "env \<Rightarrow> pystr \<Rightarrow> pystr \<Rightarrow> pystr list \<Rightarrow> pystr list \<Rightarrow> pystr list option" where
  "collect_candidates e base_url domain [] candidates = Some candidates"
| "collect_candidates e base_url domain (href # hrefs) candidates =
     (case urljoin e base_url href of
        None \<Rightarrow> None
      | Some absolute_url \<Rightarrow>
          (case netloc e absolute_url of
             None \<Rightarrow> None
           | Some n \<Rightarrow>
               if n \<noteq> domain then collect_candidates e base_url domain hrefs candidates
               else collect_candidates e base_url domain hrefs (candidates @ [absolute_url])))"

text \<open>
  \<open>sorted(xs, key=score_url, reverse=True)\<close> is a stable sort into descending order of
  the key: \<^const>\<open>sort_key\<close> with the key negated.
\<close>

definition sorted_by_score_desc :: "pystr list \<Rightarrow> pystr list" where
  "sorted_by_score_desc xs = sort_key (\<lambda>u. - score_url u) xs"

definition find_related_pages :: "env \<Rightarrow> pystr list \<Rightarrow> pystr \<Rightarrow> pystr list option" where
  "find_related_pages e hrefs base_url =
     (case netloc e base_url of
        None \<Rightarrow> None
      | Some domain \<Rightarrow>
          (case collect_candidates e base_url domain hrefs [] of
             None \<Rightarrow> None
           | Some candidates \<Rightarrow>
               let ranked = sorted_by_score_desc (set_iter e candidates)
               in Some (take 3 (filter (\<lambda>u. score_url u > 0) ranked))))"

section \<open>\<open>extract_text_from_pdf_url\<close>\<close>

definition extract_text_from_pdf_url :: "env \<Rightarrow> pystr \<Rightarrow> pystr" where
  "extract_text_from_pdf_url e url =
     (case requests_get_pdf e url of
        None \<Rightarrow> []
      | Some content \<Rightarrow>
          (case extract_pdf_text e of
             None \<Rightarrow> []
           | Some extract \<Rightarrow> (case extract content of None \<Rightarrow> [] | Some t \<Rightarrow> t)))"

section \<open>\<open>scrape_with_crawl\<close>\<close>

text \<open>
  The state of the loop.  \<open>visited\<close> lists the arguments of the calls
  \<open>visited.add(current_url)\<close> in the order they were made; the Python set is
  \<open>set (visited s)\<close> and its \<open>len\<close> is the cardinality of that set.
\<close>

record crawl_state =
  visited :: "pystr list"
  urls_to_visit :: "pystr list"
  all_snippets :: "(pystr \<times> pystr) list"

definition max_pages :: nat where
  "max_pages = 6"

text \<open>The entry page: \<open>for r in related: if r not in visited and r not in urls_to_visit\<close>.\<close>

fun enqueue_related :: "pystr list \<Rightarrow> pystr list \<Rightarrow> pystr list \<Rightarrow> pystr list" where
  "enqueue_related vis queue [] = queue"
| "enqueue_related vis queue (r # related) =
     enqueue_related vis
       (if r \<notin> set vis \<and> r \<notin> set queue then queue @ [r] else queue) related"

text \<open>
  A later page: the loop over its anchors.  When \<open>urljoin\<close> or \<open>urlparse\<close> raises, the
  \<open>except\<close> clause of the crawl ends the loop, and what was appended before stays.
\<close>

fun enqueue_discovered ::
  "env \<Rightarrow> pystr \<Rightarrow> pystr \<Rightarrow> pystr list \<Rightarrow> pystr list \<Rightarrow> pystr list \<Rightarrow> pystr list" where
  "enqueue_discovered e base_url current_url vis queue [] = queue"
| "enqueue_discovered e base_url current_url vis queue (href # hrefs) =
     (case urljoin e current_url href of
        None \<Rightarrow> queue
      | Some absolute_url \<Rightarrow>
          (case netloc e absolute_url of
             None \<Rightarrow> queue
           | Some n \<Rightarrow>
               (case netloc e base_url of
                  None \<Rightarrow> queue
                | Some d \<Rightarrow>
                    if n = d \<and> absolute_url \<notin> set vis then
                      if score_url absolute_url > 0 \<and> absolute_url \<notin> set queue
                      then enqueue_discovered e base_url current_url vis
                             (queue @ [absolute_url]) hrefs
                      else enqueue_discovered e base_url current_url vis queue hrefs
                    else enqueue_discovered e base_url current_url vis queue hrefs)))"

text \<open>The body of the \<open>while\<close> loop, run on a state whose queue is not empty.\<close>

definition crawl_step :: "env \<Rightarrow> pystr \<Rightarrow> crawl_state \<Rightarrow> crawl_state" where
  "crawl_step e base_url s =
     (case urls_to_visit s of
        [] \<Rightarrow> s
      | current_url # rest \<Rightarrow>
          if current_url \<in> set (visited s) then s\<lparr>urls_to_visit := rest\<rparr>
          else
            let s1 = s\<lparr>visited := visited s @ [current_url], urls_to_visit := rest\<rparr> in
            if endswith (lower current_url) (ustr ''.pdf'') then
              let pdf_text = extract_text_from_pdf_url e current_url in
              if pdf_text \<noteq> []
              then s1\<lparr>all_snippets := all_snippets s1 @ [(current_url, pdf_text)]\<rparr>
              else s1
            else
              (case requests_get_page e current_url of
                 None \<Rightarrow> s1
               | Some content \<Rightarrow>
                   (case extract_text_from_html e content of
                      None \<Rightarrow> s1
                    | Some (txt, hrefs) \<Rightarrow>
                        let s2 = s1\<lparr>all_snippets := all_snippets s1 @ [(current_url, txt)]\<rparr> in
                        if current_url = base_url then
                          (case find_related_pages e hrefs base_url of
                             None \<Rightarrow> s2
                           | Some related \<Rightarrow>
                               s2\<lparr>urls_to_visit :=
                                    enqueue_related (visited s2) (urls_to_visit s2) related\<rparr>)
                        else
                          s2\<lparr>urls_to_visit :=
                               enqueue_discovered e base_url current_url
                                 (visited s2) (urls_to_visit s2) hrefs\<rparr>)))"

text \<open>The condition of the loop: \<open>urls_to_visit and len(visited) < max_pages\<close>.\<close>

definition crawl_cond :: "crawl_state \<Rightarrow> bool" where
  "crawl_cond s = (urls_to_visit s \<noteq> [] \<and> card (set (visited s)) < max_pages)"

lemma crawl_step_decreases:
  assumes "crawl_cond s"
  shows "(set (visited (crawl_step e b s)) = set (visited s)
            \<and> length (urls_to_visit (crawl_step e b s)) < length (urls_to_visit s))
         \<or> card (set (visited (crawl_step e b s))) = Suc (card (set (visited s)))"
proof (cases "urls_to_visit s")
  case Nil
  with assms show ?thesis by (simp add: crawl_cond_def)
next
  case (Cons u rest)
  show ?thesis
  proof (cases "u \<in> set (visited s)")
    case True
    with Cons show ?thesis by (simp add: crawl_step_def)
  next
    case False
    have "set (visited (crawl_step e b s)) = insert u (set (visited s))"
      using Cons False
      by (simp add: crawl_step_def Let_def split: option.splits prod.splits)
    with False show ?thesis by simp
  qed
qed

function crawl_loop :: "env \<Rightarrow> pystr \<Rightarrow> crawl_state \<Rightarrow> crawl_state" where
  "crawl_loop e base_url s =
     (if crawl_cond s then crawl_loop e base_url (crawl_step e base_url s) else s)"
  by pat_completeness auto
termination
proof (relation "measures [\<lambda>(e, b, s). max_pages - card (set (visited s)),
                           \<lambda>(e, b, s). length (urls_to_visit s)]")
  show "wf (measures [\<lambda>(e, b, s). max_pages - card (set (visited s)),
                      \<lambda>(e, b, s). length (urls_to_visit s)])"
    by simp
next
  fix e :: env and base_url :: pystr and s :: crawl_state
  assume c: "crawl_cond s"
  from crawl_step_decreases [OF c, of e base_url] c
  show "((e, base_url, crawl_step e base_url s), (e, base_url, s))
          \<in> measures [\<lambda>(e, b, s). max_pages - card (set (visited s)),
                       \<lambda>(e, b, s). length (urls_to_visit s)]"
    by (auto simp: crawl_cond_def)
qed

declare crawl_loop.simps [simp del]

text \<open>The states the loop goes through, the first one included, in order.\<close>

function crawl_trace :: "env \<Rightarrow> pystr \<Rightarrow> crawl_state \<Rightarrow> crawl_state list" where
  "crawl_trace e base_url s =
     (if crawl_cond s then s # crawl_trace e base_url (crawl_step e base_url s) else [s])"
  by pat_completeness auto
termination
proof (relation "measures [\<lambda>(e, b, s). max_pages - card (set (visited s)),
                           \<lambda>(e, b, s). length (urls_to_visit s)]")
  show "wf (measures [\<lambda>(e, b, s). max_pages - card (set (visited s)),
                      \<lambda>(e, b, s). length (urls_to_visit s)])"
    by simp
next
  fix e :: env and base_url :: pystr and s :: crawl_state
  assume c: "crawl_cond s"
  from crawl_step_decreases [OF c, of e base_url] c
  show "((e, base_url, crawl_step e base_url s), (e, base_url, s))
          \<in> measures [\<lambda>(e, b, s). max_pages - card (set (visited s)),
                       \<lambda>(e, b, s). length (urls_to_visit s)]"
    by (auto simp: crawl_cond_def)
qed

declare crawl_trace.simps [simp del]

definition initial_state :: "pystr \<Rightarrow> crawl_state" where
  "initial_state base_url = \<lparr>visited = [], urls_to_visit = [base_url], all_snippets = []\<rparr>"

definition scrape_with_crawl :: "env \<Rightarrow> pystr \<Rightarrow> (pystr \<times> pystr) list" where
  "scrape_with_crawl e base_url = all_snippets (crawl_loop e base_url (initial_state base_url))"

text \<open>The states of a crawl from its entry URL.\<close>

definition crawl_states :: "env \<Rightarrow> pystr \<Rightarrow> crawl_state list" where
  "crawl_states e base_url = crawl_trace e base_url (initial_state base_url)"

section \<open>Invariants of the crawl, as predicates on a state\<close>

text \<open>
  Nothing is visited twice, nothing is queued twice, nothing visited is queued, and the
  page budget bounds the visited set.
\<close>

definition frontier_inv :: "crawl_state \<Rightarrow> bool" where
  "frontier_inv s =
     (distinct (visited s) \<and> distinct (urls_to_visit s)
      \<and> set (visited s) \<inter> set (urls_to_visit s) = {}
      \<and> card (set (visited s)) \<le> max_pages)"

text \<open>
  Every URL visited or queued is the entry URL or has the netloc of the entry URL.
\<close>

definition same_domain_inv :: "env \<Rightarrow> pystr \<Rightarrow> crawl_state \<Rightarrow> bool" where
  "same_domain_inv e b s =
     (\<forall>u \<in> set (visited s) \<union> set (urls_to_visit s).
        u = b \<or> (\<exists>d. netloc e b = Some d \<and> netloc e u = Some d))"

section \<open>A small site, for concrete runs\<close>

text \<open>
  The entry page \<open>http://a.com/\<close> links to seven URLs, one of them on another domain
  and one twice.  \<open>/happy-hour\<close> is a page with four links, \<open>/menu.pdf\<close> a PDF,
  \<open>/drinks\<close> a page whose markup cannot be parsed, and every other URL fails to load.
\<close>

definition demo_base :: pystr where
  "demo_base = ustr ''http://a.com/''"

definition demo_urljoin :: "pystr \<Rightarrow> pystr \<Rightarrow> pystr option" where
  "demo_urljoin b h =
     (if h = ustr ''/'' then Some (ustr ''http://a.com/'')
      else if h = ustr ''/about'' then Some (ustr ''http://a.com/about'')
      else if h = ustr ''/food'' then Some (ustr ''http://a.com/food'')
      else if h = ustr ''/happy-hour'' then Some (ustr ''http://a.com/happy-hour'')
      else if h = ustr ''/menu.pdf'' then Some (ustr ''http://a.com/menu.pdf'')
      else if h = ustr ''/drinks'' then Some (ustr ''http://a.com/drinks'')
      else if h = ustr ''/specials'' then Some (ustr ''http://a.com/specials'')
      else if h = ustr ''/deals'' then Some (ustr ''http://a.com/deals'')
      else if h = ustr ''http://b.com/deals'' then Some (ustr ''http://b.com/deals'')
      else None)"

definition demo_netloc :: "pystr \<Rightarrow> pystr option" where
  "demo_netloc u =
     (if u = ustr ''http://b.com/deals'' then Some (ustr ''b.com'')
      else if u = ustr ''http://[bad'' then None
      else Some (ustr ''a.com''))"

definition demo_page :: "pystr \<Rightarrow> bytes option" where
  "demo_page u =
     (if u = ustr ''http://a.com/'' then Some [1]
      else if u = ustr ''http://a.com/happy-hour'' then Some [2]
      else if u = ustr ''http://a.com/drinks'' then Some [3]
      else None)"

definition demo_html :: "bytes \<Rightarrow> (pystr \<times> pystr list) option" where
  "demo_html c =
     (if c = [1] then
        Some (ustr ''Welcome'',
              [ustr ''/about'', ustr ''/food'', ustr ''/happy-hour'', ustr ''http://b.com/deals'',
               ustr ''/menu.pdf'', ustr ''/drinks'', ustr ''/happy-hour''])
      else if c = [2] then
        Some (ustr ''Happy Hour runs 3pm-6pm daily'',
              [ustr ''/'', ustr ''/specials'', ustr ''/happy-hour'', ustr ''/about''])
      else None)"

definition demo_env :: env where
  "demo_env =
     \<lparr>requests_get_page = demo_page,
      extract_text_from_html = demo_html,
      requests_get_pdf = (\<lambda>u. Some [4]),
      extract_pdf_text = Some (\<lambda>c. Some (ustr ''HH 4 to 7'')),
      urljoin = demo_urljoin,
      netloc = demo_netloc,
      set_iter = remdups\<rparr>"

section \<open>Pages that fail\<close>

text \<open>
  A page fails when fetching it raises or its content cannot be turned into text: for a
  URL ending in \<open>.pdf\<close>, the request or pdfminer raises; for any other URL, the request
  or \<open>extract_text_from_html\<close> raises.
\<close>

definition page_fails :: "env \<Rightarrow> pystr \<Rightarrow> bool" where
  "page_fails e url =
     (if endswith (lower url) (ustr ''.pdf'') then
        (case requests_get_pdf e url of
           None \<Rightarrow> True
         | Some content \<Rightarrow>
             (case extract_pdf_text e of None \<Rightarrow> False | Some extract \<Rightarrow> extract content = None))
      else
        (case requests_get_page e url of
           None \<Rightarrow> True
         | Some content \<Rightarrow> extract_text_from_html e content = None))"

text \<open>The small site on a machine without pdfminer.\<close>

definition demo_env_no_pdfminer :: env where
  "demo_env_no_pdfminer = demo_env\<lparr>extract_pdf_text := None\<rparr>"

text \<open>
  A site that serves a PDF at a URL with a query string; its bytes, read as markup,
  give some text and one link.
\<close>

definition pdf_query_url :: pystr where
  "pdf_query_url = ustr ''http://a.com/menu.pdf?v=2''"

definition pdf_query_env :: env where
  "pdf_query_env =
     demo_env\<lparr>requests_get_page := (\<lambda>u. if u = pdf_query_url then Some [5] else None),
              extract_text_from_html :=
                (\<lambda>c. if c = [5] then Some (ustr ''%PDF-1.4'', [ustr ''/specials'']) else None)\<rparr>"

text \<open>
  A site whose entry page links to two pages of equal score, \<open>/specials\<close> first.
  The environment takes the iteration order of sets as a parameter.
\<close>

definition tie_page :: "pystr \<Rightarrow> bytes option" where
  "tie_page u =
     (if u = ustr ''http://a.com/'' then Some [1]
      else if u = ustr ''http://a.com/specials'' then Some [2]
      else if u = ustr ''http://a.com/deals'' then Some [3]
      else None)"

definition tie_html :: "bytes \<Rightarrow> (pystr \<times> pystr list) option" where
  "tie_html c =
     (if c = [1] then Some (ustr ''Welcome'', [ustr ''/specials'', ustr ''/deals''])
      else if c = [2] then Some (ustr ''Specials'', [])
      else if c = [3] then Some (ustr ''Deals'', [])
      else None)"

definition tie_env :: "(pystr list \<Rightarrow> pystr list) \<Rightarrow> env" where
  "tie_env order =
     demo_env\<lparr>requests_get_page := tie_page, extract_text_from_html := tie_html,
              set_iter := order\<rparr>"

section \<open>The links of the entry page\<close>

text \<open>
  The list \<open>candidates\<close> that \<open>find_related_pages\<close> builds on the entry page (empty
  when the page or a link of it fails), and the absence of ties in it: no two different
  links with the same positive score.
\<close>

definition entry_links :: "env \<Rightarrow> pystr \<Rightarrow> pystr list" where
  "entry_links e base_url =
     (case requests_get_page e base_url of
        None \<Rightarrow> []
      | Some content \<Rightarrow>
          (case extract_text_from_html e content of
             None \<Rightarrow> []
           | Some (tx, hrefs) \<Rightarrow>
               (case netloc e base_url of
                  None \<Rightarrow> []
                | Some domain \<Rightarrow>
                    (case collect_candidates e base_url domain hrefs [] of
                       None \<Rightarrow> []
                     | Some candidates \<Rightarrow> candidates))))"

definition tie_free :: "env \<Rightarrow> pystr \<Rightarrow> bool" where
  "tie_free e base_url =
     (\<forall>u \<in> set (entry_links e base_url). \<forall>v \<in> set (entry_links e base_url).
        0 < score_url u \<and> score_url u = score_url v \<longrightarrow> u = v)"

section \<open>The pattern \<open>HAPPY_HOUR_REGEX\<close>\<close>

text \<open>
  The regular expressions that the pattern of the program is built from, with the flags
  \<open>re.IGNORECASE\<close> and \<open>re.DOTALL\<close> built in: literals and sets compare lower-cased
  characters, and the dot is any character.  The digit class is modelled on the ASCII
  digits; the whitespace class is the whitespace of Python's \<open>str\<close> patterns.
\<close>

datatype cclass = AnyChar | Digit | Space | OneOf "nat list"

definition unicode_whitespace :: "nat list" where
  "unicode_whitespace =
     [9, 10, 11, 12, 13, 28, 29, 30, 31, 32, 133, 160, 5760, 8192, 8193, 8194, 8195, 8196,
      8197, 8198, 8199, 8200, 8201, 8202, 8232, 8233, 8239, 8287, 12288]"

fun in_class :: "cclass \<Rightarrow> nat \<Rightarrow> bool" where
  "in_class AnyChar c = True"
| "in_class Digit c = (48 \<le> c \<and> c \<le> 57)"
| "in_class Space c = (c \<in> set unicode_whitespace)"
| "in_class (OneOf cs) c = (lower_char c \<in> set (map lower_char cs))"

datatype regex =
    Lit pystr
  | Cls cclass
  | Seq regex regex
  | Alt regex regex
  | Opt regex
  | StarGreedy cclass
  | StarLazy cclass

text \<open>
  The backtracking matcher of \<open>re\<close>: \<open>rmatch r s\<close> lists what is left of \<open>s\<close> after each
  way of matching \<open>r\<close> at its start, in the order in which backtracking tries them.  The
  match that \<open>re\<close> reports is the first.
\<close>

fun rmatch :: "regex \<Rightarrow> pystr \<Rightarrow> pystr list" where
  "rmatch (Lit p) s =
     (if length p \<le> length s \<and> lower (take (length p) s) = lower p
      then [drop (length p) s] else [])"
| "rmatch (Cls k) [] = []"
| "rmatch (Cls k) (c # cs) = (if in_class k c then [cs] else [])"
| "rmatch (Seq a b) s = concat (map (rmatch b) (rmatch a s))"
| "rmatch (Alt a b) s = rmatch a s @ rmatch b s"
| "rmatch (Opt a) s = rmatch a s @ [s]"
| "rmatch (StarGreedy k) [] = [[]]"
| "rmatch (StarGreedy k) (c # cs) =
     (if in_class k c then rmatch (StarGreedy k) cs else []) @ [c # cs]"
| "rmatch (StarLazy k) [] = [[]]"
| "rmatch (StarLazy k) (c # cs) =
     (c # cs) # (if in_class k c then rmatch (StarLazy k) cs else [])"

text \<open>
  \<open>pattern.finditer(s)\<close>: the matched spans, left to right, each search starting where
  the last match ended.
\<close>

function finditer :: "regex \<Rightarrow> pystr \<Rightarrow> pystr list" where
  "finditer r s =
     (case rmatch r s of
        [] \<Rightarrow> (case s of [] \<Rightarrow> [] | c # cs \<Rightarrow> finditer r cs)
      | rest # _ \<Rightarrow>
          if length rest < length s
          then take (length s - length rest) s # finditer r rest
          else (case s of [] \<Rightarrow> [[]] | c # cs \<Rightarrow> [] # finditer r cs))"
  by pat_completeness auto

termination
  by (relation "measure (\<lambda>(r, s). length s)") auto

declare finditer.simps [simp del]

text \<open>
  The parts of the pattern: one or two digits with optional minutes, an optional
  \<open>am\<close> or \<open>pm\<close>, and the set of the characters \<open>-\<close>, en dash, \<open>t\<close> and \<open>o\<close>.  The
  pattern is given for any separator; the program's is one or more characters of the
  set.
\<close>

definition time_of_day :: regex where
  "time_of_day =
     Seq (Cls Digit)
       (Seq (Opt (Cls Digit)) (Opt (Seq (Lit (ustr '':'')) (Seq (Cls Digit) (Cls Digit)))))"

definition am_pm :: regex where
  "am_pm = Opt (Alt (Lit (ustr ''am'')) (Lit (ustr ''pm'')))"

definition separator_chars :: cclass where
  "separator_chars = OneOf [45, 8211, 116, 111]"

definition happy_hour_pattern :: "regex \<Rightarrow> regex" where
  "happy_hour_pattern separator =
     Seq (Alt (Lit (ustr ''happy hour'')) (Lit (ustr ''hh'')))
    (Seq (StarLazy AnyChar)
    (Seq time_of_day (Seq (StarGreedy Space) (Seq am_pm (Seq (StarGreedy Space)
    (Seq separator
    (Seq (StarGreedy Space) (Seq time_of_day (Seq (StarGreedy Space) am_pm)))))))))"

definition separator_plus :: regex where
  "separator_plus = Seq (Cls separator_chars) (StarGreedy separator_chars)"

definition HAPPY_HOUR_REGEX :: regex where
  "HAPPY_HOUR_REGEX = happy_hour_pattern separator_plus"



section \<open>Candidate selection\<close>

text \<open>
  The dictionaries \<open>{"url": u, "text": excerpt}\<close>, the loop over the snippets and
  the matches of each, the fallback to the first 2000 characters of each snippet, and
  the prompt blocks of the first 8 candidates.
\<close>

record candidate =
  cand_url :: pystr
  cand_text :: pystr

fun matches_of :: "regex \<Rightarrow> pystr \<times> pystr \<Rightarrow> candidate list" where
  "matches_of r (u, txt) =
     map (\<lambda>excerpt. \<lparr>cand_url = u, cand_text = excerpt\<rparr>) (finditer r txt)"

definition primary_candidates :: "regex \<Rightarrow> (pystr \<times> pystr) list \<Rightarrow> candidate list" where
  "primary_candidates r snippets = concat (map (matches_of r) snippets)"

fun fallback_candidate :: "pystr \<times> pystr \<Rightarrow> candidate" where
  "fallback_candidate (u, txt) = \<lparr>cand_url = u, cand_text = take 2000 txt\<rparr>"

definition select_candidates :: "(pystr \<times> pystr) list \<Rightarrow> candidate list" where
  "select_candidates snippets =
     (let candidates = primary_candidates HAPPY_HOUR_REGEX snippets
      in if candidates = [] then map fallback_candidate snippets else candidates)"

definition prompt_block :: "candidate \<Rightarrow> pystr" where
  "prompt_block c = ustr ''URL: '' @ cand_url c @ [10] @ ustr ''---'' @ [10] @ cand_text c"

definition prompt_blocks :: "candidate list \<Rightarrow> pystr list" where
  "prompt_blocks candidates = map prompt_block (take 8 candidates)"

section \<open>What the pattern matches\<close>

text \<open>The strings a regular expression matches in full, whatever the order of trial.\<close>

fun lang :: "regex \<Rightarrow> pystr set" where
  "lang (Lit p) = {s. lower s = lower p}"
| "lang (Cls k) = {[c] |c. in_class k c}"
| "lang (Seq a b) = {x @ y |x y. x \<in> lang a \<and> y \<in> lang b}"
| "lang (Alt a b) = lang a \<union> lang b"
| "lang (Opt a) = insert [] (lang a)"
| "lang (StarGreedy k) = {s. set s \<subseteq> Collect (in_class k)}"
| "lang (StarLazy k) = {s. set s \<subseteq> Collect (in_class k)}"

text \<open>
  A time range as \<open>HAPPY_HOUR_REGEX\<close> has it: a time of day, an optional \<open>am\<close> or
  \<open>pm\<close>, a separator, a time of day and an optional \<open>am\<close> or \<open>pm\<close>, with optional
  whitespace between them.  The separator is any non-empty run of the characters
  \<open>-\<close>, en dash, \<open>t\<close> and \<open>o\<close>, in either case.
\<close>

definition whitespace :: "pystr \<Rightarrow> bool" where
  "whitespace w = (set w \<subseteq> set unicode_whitespace)"

definition separator_run :: "pystr \<Rightarrow> bool" where
  "separator_run sep = (sep \<noteq> [] \<and> lower_char ` set sep \<subseteq> {45, 8211, 116, 111})"

definition time_range :: "pystr \<Rightarrow> bool" where
  "time_range x =
     (\<exists>t1 w1 a1 w2 sep w3 t2 w4 a2.
        x = t1 @ w1 @ a1 @ w2 @ sep @ w3 @ t2 @ w4 @ a2
        \<and> t1 \<in> lang time_of_day \<and> whitespace w1 \<and> a1 \<in> lang am_pm \<and> whitespace w2
        \<and> separator_run sep
        \<and> whitespace w3 \<and> t2 \<in> lang time_of_day \<and> whitespace w4 \<and> a2 \<in> lang am_pm)"

definition happy_hour_excerpt :: "pystr \<Rightarrow> bool" where
  "happy_hour_excerpt m =
     (\<exists>ind gap x. m = ind @ gap @ x
        \<and> (lower ind = ustr ''happy hour'' \<or> lower ind = ustr ''hh'') \<and> time_range x)"

section \<open>The scorer, proved\<close>




section \<open>The crawl loop, proved\<close>

lemma enqueue_related_set:
  "set (enqueue_related vis q rs) = set q \<union> (set rs - set vis)"
  by (induction vis q rs rule: enqueue_related.induct) auto

lemma enqueue_related_distinct:
  "distinct q \<Longrightarrow> distinct (enqueue_related vis q rs)"
  by (induction vis q rs rule: enqueue_related.induct) auto

lemma enqueue_discovered_distinct:
  "distinct q \<Longrightarrow> distinct (enqueue_discovered e b c vis q hs)"
  by (induction e b c vis q hs rule: enqueue_discovered.induct)
     (auto split: option.splits)

lemma enqueue_discovered_new:
  "u \<in> set (enqueue_discovered e b c vis q hs) \<Longrightarrow> u \<notin> set q \<Longrightarrow>
     u \<notin> set vis \<and> score_url u > 0 \<and> (\<exists>d. netloc e b = Some d \<and> netloc e u = Some d)"
  by (induction e b c vis q hs rule: enqueue_discovered.induct)
     (auto split: option.splits if_splits)

lemma enqueue_discovered_keeps:
  "set q \<subseteq> set (enqueue_discovered e b c vis q hs)"
  by (induction e b c vis q hs rule: enqueue_discovered.induct)
     (auto split: option.splits if_splits)

lemma collect_candidates_netloc:
  "collect_candidates e b d hs cs = Some cs' \<Longrightarrow> u \<in> set cs' \<Longrightarrow>
     u \<in> set cs \<or> netloc e u = Some d"
  by (induction e b d hs cs rule: collect_candidates.induct)
     (auto split: option.splits if_splits)

lemma find_related_pages_netloc:
  assumes "set_iter_ok (set_iter e)" "find_related_pages e hs b = Some rel" "u \<in> set rel"
  shows "\<exists>d. netloc e b = Some d \<and> netloc e u = Some d"
proof -
  from assms(2) obtain d cs where d: "netloc e b = Some d"
    and cs: "collect_candidates e b d hs [] = Some cs"
    and rel: "rel = take 3 (filter (\<lambda>u. score_url u > 0) (sorted_by_score_desc (set_iter e cs)))"
    by (auto simp: find_related_pages_def Let_def split: option.splits)
  from assms(3) rel have "u \<in> set (sorted_by_score_desc (set_iter e cs))"
    by (auto dest: in_set_takeD)
  then have "u \<in> set cs"
    using assms(1) by (simp add: sorted_by_score_desc_def set_iter_ok_def)
  with collect_candidates_netloc [OF cs] d show ?thesis by auto
qed

text \<open>The shape of one iteration on a URL not yet visited.\<close>

lemma crawl_step_skip:
  "urls_to_visit s = u # rest \<Longrightarrow> u \<in> set (visited s) \<Longrightarrow>
     crawl_step e b s = s\<lparr>urls_to_visit := rest\<rparr>"
  by (simp add: crawl_step_def)

lemma crawl_step_visited:
  "urls_to_visit s = u # rest \<Longrightarrow> u \<notin> set (visited s) \<Longrightarrow>
     visited (crawl_step e b s) = visited s @ [u]"
  by (simp add: crawl_step_def Let_def split: option.splits prod.splits)

lemma crawl_step_queue:
  assumes "urls_to_visit s = u # rest" "u \<notin> set (visited s)"
  shows "urls_to_visit (crawl_step e b s) = rest
     \<or> (\<exists>rel txt hs c. u = b \<and> requests_get_page e u = Some c
           \<and> extract_text_from_html e c = Some (txt, hs)
           \<and> find_related_pages e hs b = Some rel
           \<and> urls_to_visit (crawl_step e b s) = enqueue_related (visited s @ [u]) rest rel)
     \<or> (\<exists>hs. u \<noteq> b \<and> urls_to_visit (crawl_step e b s)
                  = enqueue_discovered e b u (visited s @ [u]) rest hs)"
  using assms
  by (auto simp: crawl_step_def Let_def split: option.splits prod.splits)

lemma frontier_inv_initial: "frontier_inv (initial_state b)"
  by (simp add: frontier_inv_def initial_state_def)

lemma crawl_step_frontier_inv:
  assumes inv: "frontier_inv s" and c: "crawl_cond s"
  shows "frontier_inv (crawl_step e b s)"
proof -
  from c obtain u rest where q: "urls_to_visit s = u # rest"
    by (cases "urls_to_visit s") (auto simp: crawl_cond_def)
  from inv q have u: "u \<notin> set (visited s)" and dr: "distinct rest" and ur: "u \<notin> set rest"
    and dv: "distinct (visited s)" and disj: "set (visited s) \<inter> set rest = {}"
    by (auto simp: frontier_inv_def)
  let ?s' = "crawl_step e b s"
  have v: "visited ?s' = visited s @ [u]" by (rule crawl_step_visited [OF q u])
  have card: "card (set (visited ?s')) \<le> max_pages"
    using c u v by (simp add: crawl_cond_def)
  have dv': "distinct (visited ?s')" using v dv u by simp
  have "distinct (urls_to_visit ?s') \<and> set (visited s @ [u]) \<inter> set (urls_to_visit ?s') = {}"
    using crawl_step_queue [OF q u, of e b]
  proof (elim disjE exE conjE)
    assume "urls_to_visit ?s' = rest"
    with dr ur disj show ?thesis by auto
  next
    fix rel tx hs cnt
    assume "urls_to_visit ?s' = enqueue_related (visited s @ [u]) rest rel"
    with dr ur disj show ?thesis
      by (auto simp: enqueue_related_set enqueue_related_distinct)
  next
    fix hs
    assume e: "urls_to_visit ?s' = enqueue_discovered e b u (visited s @ [u]) rest hs"
    have "x \<notin> set (visited s @ [u])" if "x \<in> set (urls_to_visit ?s')" for x
    proof (cases "x \<in> set rest")
      case True with ur disj show ?thesis by auto
    next
      case False
      with that e enqueue_discovered_new [of x e b u "visited s @ [u]" rest hs]
      show ?thesis by simp
    qed
    with e dr show ?thesis by (auto simp: enqueue_discovered_distinct)
  qed
  with v dv' card show ?thesis by (simp add: frontier_inv_def)
qed

lemma crawl_trace_invariant:
  assumes "s' \<in> set (crawl_trace e b s)" and "P s"
    and "\<And>t. P t \<Longrightarrow> crawl_cond t \<Longrightarrow> P (crawl_step e b t)"
  shows "P s'"
  using assms
proof (induction e b s rule: crawl_trace.induct)
  case (1 e b s)
  show ?case
  proof (cases "crawl_cond s")
    case True
    with "1.prems"(1) have "s' = s \<or> s' \<in> set (crawl_trace e b (crawl_step e b s))"
      by (subst (asm) crawl_trace.simps) simp
    then show ?thesis
    proof
      assume "s' = s" with "1.prems"(2) show ?thesis by simp
    next
      assume "s' \<in> set (crawl_trace e b (crawl_step e b s))"
      then show ?thesis
        using "1.prems"(2,3) True by (intro "1.IH") auto
    qed
  next
    case False
    with "1.prems"(1) have "s' = s" by (subst (asm) crawl_trace.simps) simp
    with "1.prems"(2) show ?thesis by simp
  qed
qed

lemma crawl_trace_frontier_inv:
  "s \<in> set (crawl_trace e b (initial_state b)) \<Longrightarrow> frontier_inv s"
  by (rule crawl_trace_invariant [where P = frontier_inv])
     (auto intro: frontier_inv_initial crawl_step_frontier_inv)

lemma crawl_step_visited_mono:
  "set (visited s) \<subseteq> set (visited (crawl_step e b s))"
proof (cases "urls_to_visit s")
  case Nil then show ?thesis by (simp add: crawl_step_def)
next
  case (Cons u rest)
  show ?thesis
  proof (cases "u \<in> set (visited s)")
    case True with Cons show ?thesis by (simp add: crawl_step_skip)
  next
    case False with Cons show ?thesis by (auto simp: crawl_step_visited)
  qed
qed

lemma crawl_trace_visited_mono:
  "s' \<in> set (crawl_trace e b s) \<Longrightarrow> set (visited s) \<subseteq> set (visited s')"
  by (rule crawl_trace_invariant [where P = "\<lambda>t. set (visited s) \<subseteq> set (visited t)"])
     (use crawl_step_visited_mono in blast)+

lemma crawl_trace_nonempty: "crawl_trace e b s \<noteq> []"
  by (subst crawl_trace.simps) simp

lemma crawl_trace_first: "crawl_trace e b s ! 0 = s"
  by (subst crawl_trace.simps) simp

lemma crawl_trace_drop:
  "i < length (crawl_trace e b s) \<Longrightarrow>
     drop i (crawl_trace e b s) = crawl_trace e b (crawl_trace e b s ! i)"
proof (induction i arbitrary: s)
  case 0
  then show ?case
    by (simp add: crawl_trace_first)
next
  case (Suc i)
  show ?case
  proof (cases "crawl_cond s")
    case True
    then have eq: "crawl_trace e b s = s # crawl_trace e b (crawl_step e b s)"
      by (subst crawl_trace.simps) simp
    with Suc.prems have "i < length (crawl_trace e b (crawl_step e b s))" by simp
    from Suc.IH [OF this] eq show ?thesis by simp
  next
    case False
    then have "crawl_trace e b s = [s]" by (subst crawl_trace.simps) simp
    with Suc.prems show ?thesis by simp
  qed
qed

lemma crawl_trace_later:
  assumes "i \<le> j" "j < length (crawl_trace e b s)"
  shows "crawl_trace e b s ! j \<in> set (crawl_trace e b (crawl_trace e b s ! i))"
proof -
  let ?tr = "crawl_trace e b s"
  from assms have i: "i < length ?tr" by simp
  have "?tr ! j = drop i ?tr ! (j - i)" using assms by simp
  also have "\<dots> \<in> set (drop i ?tr)" using assms by (intro nth_mem) simp
  finally show ?thesis using crawl_trace_drop [OF i] by simp
qed

lemma crawl_loop_last: "crawl_loop e b s = last (crawl_trace e b s)"
proof (induction e b s rule: crawl_loop.induct)
  case (1 e b s)
  show ?case
  proof (cases "crawl_cond s")
    case True
    with "1.IH" show ?thesis
      by (subst crawl_loop.simps, subst crawl_trace.simps) (simp add: crawl_trace_nonempty)
  next
    case False
    then show ?thesis by (subst crawl_loop.simps, subst crawl_trace.simps) simp
  qed
qed



lemma crawl_step_same_domain_inv:
  assumes ok: "set_iter_ok (set_iter e)" and inv: "same_domain_inv e b s"
  shows "same_domain_inv e b (crawl_step e b s)"
proof (cases "urls_to_visit s")
  case Nil
  with inv show ?thesis by (simp add: crawl_step_def)
next
  case (Cons u rest)
  show ?thesis
  proof (cases "u \<in> set (visited s)")
    case True
    with Cons inv show ?thesis
      by (auto simp: crawl_step_skip same_domain_inv_def)
  next
    case False
    let ?s' = "crawl_step e b s"
    have v: "visited ?s' = visited s @ [u]" by (rule crawl_step_visited [OF Cons False])
    have old: "x = b \<or> (\<exists>d. netloc e b = Some d \<and> netloc e x = Some d)"
      if "x \<in> set (visited s) \<union> set (u # rest)" for x
      using inv Cons that by (auto simp: same_domain_inv_def)
    have new: "x = b \<or> (\<exists>d. netloc e b = Some d \<and> netloc e x = Some d)"
      if x: "x \<in> set (urls_to_visit ?s')" for x
      using crawl_step_queue [OF Cons False, of e b]
    proof (elim disjE exE conjE)
      assume "urls_to_visit ?s' = rest"
      with x old show ?thesis by auto
    next
      fix rel tx hs c
      assume rel: "find_related_pages e hs b = Some rel"
        and q: "urls_to_visit ?s' = enqueue_related (visited s @ [u]) rest rel"
      from x q have "x \<in> set rest \<or> x \<in> set rel" by (auto simp: enqueue_related_set)
      then show ?thesis
      proof
        assume "x \<in> set rest" with old show ?thesis by auto
      next
        assume "x \<in> set rel"
        from find_related_pages_netloc [OF ok rel this] show ?thesis by simp
      qed
    next
      fix hs
      assume q: "urls_to_visit ?s' = enqueue_discovered e b u (visited s @ [u]) rest hs"
      show ?thesis
      proof (cases "x \<in> set rest")
        case True with old show ?thesis by auto
      next
        case False
        with x q enqueue_discovered_new [of x e b u "visited s @ [u]" rest hs]
        show ?thesis by simp
      qed
    qed
    show ?thesis
      unfolding same_domain_inv_def
    proof
      fix x assume "x \<in> set (visited ?s') \<union> set (urls_to_visit ?s')"
      then have "x \<in> set (visited s) \<union> set (u # rest) \<or> x \<in> set (urls_to_visit ?s')"
        using v by auto
      then show "x = b \<or> (\<exists>d. netloc e b = Some d \<and> netloc e x = Some d)"
        using old new by blast
    qed
  qed
qed

lemma crawl_states_same_domain_inv:
  assumes "set_iter_ok (set_iter e)" "s \<in> set (crawl_states e b)"
  shows "same_domain_inv e b s"
  using assms(2) unfolding crawl_states_def
proof (rule crawl_trace_invariant [where P = "same_domain_inv e b"])
  show "same_domain_inv e b (initial_state b)"
    by (simp add: same_domain_inv_def initial_state_def)
next
  fix t assume "same_domain_inv e b t"
  then show "same_domain_inv e b (crawl_step e b t)"
    by (rule crawl_step_same_domain_inv [OF assms(1)])
qed

subsection \<open>The run on the small site\<close>

lemma ustr_inject: "ustr s = ustr t \<longleftrightarrow> s = t"
proof -
  have "inj (of_char :: char \<Rightarrow> nat)" by (rule injI) simp
  then show ?thesis unfolding ustr_def by (simp add: inj_map_eq_map)
qed

lemma ustr_eq_Nil: "ustr s = [] \<longleftrightarrow> s = []"
  by (simp add: ustr_def)

lemmas score_eval = ustr_def lower_def lower_char_def endswith_def keyword_weights_def
  score_url_def sublist_code suffix_to_prefix

lemma demo_scores:
  "score_url (ustr ''http://a.com/'') = 0"
  "score_url (ustr ''http://a.com/about'') = 0"
  "score_url (ustr ''http://a.com/food'') = 1"
  "score_url (ustr ''http://a.com/happy-hour'') = 10"
  "score_url (ustr ''http://a.com/menu.pdf'') = 6"
  "score_url (ustr ''http://a.com/drinks'') = 2"
  "score_url (ustr ''http://a.com/specials'') = 3"
  "score_url (ustr ''http://b.com/deals'') = 3"
  "score_url (ustr ''http://a.com/deals'') = 3"
  by (simp_all add: score_eval)

lemma demo_is_pdf:
  "endswith (lower (ustr ''http://a.com/'')) (ustr ''.pdf'') = False"
  "endswith (lower (ustr ''http://a.com/happy-hour'')) (ustr ''.pdf'') = False"
  "endswith (lower (ustr ''http://a.com/menu.pdf'')) (ustr ''.pdf'') = True"
  "endswith (lower (ustr ''http://a.com/drinks'')) (ustr ''.pdf'') = False"
  "endswith (lower (ustr ''http://a.com/specials'')) (ustr ''.pdf'') = False"
  "endswith (lower (ustr ''http://a.com/deals'')) (ustr ''.pdf'') = False"
  by (simp_all add: score_eval)

lemmas demo_simps = demo_env_def demo_base_def demo_urljoin_def demo_netloc_def demo_page_def
  demo_html_def ustr_inject ustr_eq_Nil demo_scores demo_is_pdf find_related_pages_def
  sorted_by_score_desc_def crawl_step_def initial_state_def extract_text_from_pdf_url_def
  crawl_cond_def max_pages_def Let_def

lemma demo_trace:
  "crawl_trace demo_env demo_base (initial_state demo_base) =
    [\<lparr>visited = [], urls_to_visit = [ustr ''http://a.com/''], all_snippets = []\<rparr>,
     \<lparr>visited = [ustr ''http://a.com/''],
      urls_to_visit = [ustr ''http://a.com/happy-hour'', ustr ''http://a.com/menu.pdf'',
                       ustr ''http://a.com/drinks''],
      all_snippets = [(ustr ''http://a.com/'', ustr ''Welcome'')]\<rparr>,
     \<lparr>visited = [ustr ''http://a.com/'', ustr ''http://a.com/happy-hour''],
      urls_to_visit = [ustr ''http://a.com/menu.pdf'', ustr ''http://a.com/drinks'',
                       ustr ''http://a.com/specials''],
      all_snippets = [(ustr ''http://a.com/'', ustr ''Welcome''),
                      (ustr ''http://a.com/happy-hour'', ustr ''Happy Hour runs 3pm-6pm daily'')]\<rparr>,
     \<lparr>visited = [ustr ''http://a.com/'', ustr ''http://a.com/happy-hour'',
                 ustr ''http://a.com/menu.pdf''],
      urls_to_visit = [ustr ''http://a.com/drinks'', ustr ''http://a.com/specials''],
      all_snippets = [(ustr ''http://a.com/'', ustr ''Welcome''),
                      (ustr ''http://a.com/happy-hour'', ustr ''Happy Hour runs 3pm-6pm daily''),
                      (ustr ''http://a.com/menu.pdf'', ustr ''HH 4 to 7'')]\<rparr>,
     \<lparr>visited = [ustr ''http://a.com/'', ustr ''http://a.com/happy-hour'',
                 ustr ''http://a.com/menu.pdf'', ustr ''http://a.com/drinks''],
      urls_to_visit = [ustr ''http://a.com/specials''],
      all_snippets = [(ustr ''http://a.com/'', ustr ''Welcome''),
                      (ustr ''http://a.com/happy-hour'', ustr ''Happy Hour runs 3pm-6pm daily''),
                      (ustr ''http://a.com/menu.pdf'', ustr ''HH 4 to 7'')]\<rparr>,
     \<lparr>visited = [ustr ''http://a.com/'', ustr ''http://a.com/happy-hour'',
                 ustr ''http://a.com/menu.pdf'', ustr ''http://a.com/drinks'',
                 ustr ''http://a.com/specials''],
      urls_to_visit = [],
      all_snippets = [(ustr ''http://a.com/'', ustr ''Welcome''),
                      (ustr ''http://a.com/happy-hour'', ustr ''Happy Hour runs 3pm-6pm daily''),
                      (ustr ''http://a.com/menu.pdf'', ustr ''HH 4 to 7'')]\<rparr>]"
  by (simp add: crawl_trace.simps demo_simps)

lemma demo_states:
  "crawl_states demo_env demo_base =
    [\<lparr>visited = [], urls_to_visit = [ustr ''http://a.com/''], all_snippets = []\<rparr>,
     \<lparr>visited = [ustr ''http://a.com/''],
      urls_to_visit = [ustr ''http://a.com/happy-hour'', ustr ''http://a.com/menu.pdf'',
                       ustr ''http://a.com/drinks''],
      all_snippets = [(ustr ''http://a.com/'', ustr ''Welcome'')]\<rparr>,
     \<lparr>visited = [ustr ''http://a.com/'', ustr ''http://a.com/happy-hour''],
      urls_to_visit = [ustr ''http://a.com/menu.pdf'', ustr ''http://a.com/drinks'',
                       ustr ''http://a.com/specials''],
      all_snippets = [(ustr ''http://a.com/'', ustr ''Welcome''),
                      (ustr ''http://a.com/happy-hour'', ustr ''Happy Hour runs 3pm-6pm daily'')]\<rparr>,
     \<lparr>visited = [ustr ''http://a.com/'', ustr ''http://a.com/happy-hour'',
                 ustr ''http://a.com/menu.pdf''],
      urls_to_visit = [ustr ''http://a.com/drinks'', ustr ''http://a.com/specials''],
      all_snippets = [(ustr ''http://a.com/'', ustr ''Welcome''),
                      (ustr ''http://a.com/happy-hour'', ustr ''Happy Hour runs 3pm-6pm daily''),
                      (ustr ''http://a.com/menu.pdf'', ustr ''HH 4 to 7'')]\<rparr>,
     \<lparr>visited = [ustr ''http://a.com/'', ustr ''http://a.com/happy-hour'',
                 ustr ''http://a.com/menu.pdf'', ustr ''http://a.com/drinks''],
      urls_to_visit = [ustr ''http://a.com/specials''],
      all_snippets = [(ustr ''http://a.com/'', ustr ''Welcome''),
                      (ustr ''http://a.com/happy-hour'', ustr ''Happy Hour runs 3pm-6pm daily''),
                      (ustr ''http://a.com/menu.pdf'', ustr ''HH 4 to 7'')]\<rparr>,
     \<lparr>visited = [ustr ''http://a.com/'', ustr ''http://a.com/happy-hour'',
                 ustr ''http://a.com/menu.pdf'', ustr ''http://a.com/drinks'',
                 ustr ''http://a.com/specials''],
      urls_to_visit = [],
      all_snippets = [(ustr ''http://a.com/'', ustr ''Welcome''),
                      (ustr ''http://a.com/happy-hour'', ustr ''Happy Hour runs 3pm-6pm daily''),
                      (ustr ''http://a.com/menu.pdf'', ustr ''HH 4 to 7'')]\<rparr>]"
  unfolding crawl_states_def by (rule demo_trace)

lemma set_iter_ok_remdups: "set_iter_ok remdups"
  by (simp add: set_iter_ok_def)

subsection \<open>Claims about the loop\<close>

text \<open>
  Claim C1: in every state of a crawl at most 6 URLs are marked visited; the calls of
  \<open>visited.add\<close> are for pairwise different URLs, so a URL enters the visited set at
  most once; and a URL that is visited in some state is in the queue of no later state
  (nor of that state): it is never queued again.
\<close>

theorem visited_bounded_never_requeued:
  assumes "i \<le> j" and "j < length (crawl_states e base_url)"
  shows "card (set (visited (crawl_states e base_url ! j))) \<le> 6
       \<and> distinct (visited (crawl_states e base_url ! j))
       \<and> set (visited (crawl_states e base_url ! i))
           \<inter> set (urls_to_visit (crawl_states e base_url ! j)) = {}"
proof -
  let ?tr = "crawl_states e base_url"
  have mem: "?tr ! j \<in> set ?tr" using assms(2) by simp
  then have inv: "frontier_inv (?tr ! j)"
    unfolding crawl_states_def by (rule crawl_trace_frontier_inv)
  have "?tr ! j \<in> set (crawl_trace e base_url (?tr ! i))"
    using assms unfolding crawl_states_def by (rule crawl_trace_later)
  then have "set (visited (?tr ! i)) \<subseteq> set (visited (?tr ! j))"
    by (rule crawl_trace_visited_mono)
  with inv show ?thesis by (auto simp: frontier_inv_def max_pages_def)
qed

theorem visited_bounded_never_requeued_witness:
  "(1::nat) \<le> 2 \<and> 2 < length (crawl_states demo_env demo_base)
   \<and> visited (crawl_states demo_env demo_base ! 1) = [ustr ''http://a.com/'']
   \<and> urls_to_visit (crawl_states demo_env demo_base ! 2)
       = [ustr ''http://a.com/menu.pdf'', ustr ''http://a.com/drinks'', ustr ''http://a.com/specials'']
   \<and> card (set (visited (crawl_states demo_env demo_base ! 2))) \<le> 6
   \<and> distinct (visited (crawl_states demo_env demo_base ! 2))
   \<and> set (visited (crawl_states demo_env demo_base ! 1))
       \<inter> set (urls_to_visit (crawl_states demo_env demo_base ! 2)) = {}"
proof -
  have h: "(1::nat) \<le> 2" "2 < length (crawl_states demo_env demo_base)"
    by (simp_all add: demo_states)
  from visited_bounded_never_requeued [OF h] h show ?thesis
    by (simp add: demo_states)
qed

text \<open>
  Claim C8: in every state of a crawl, every URL in the visited set or in the queue,
  other than the entry URL, has the netloc of the entry URL; links to other domains
  never get there.  The iteration order of \<open>set(candidates)\<close> is any order of its
  elements.
\<close>

theorem crawl_stays_on_domain:
  assumes "set_iter_ok (set_iter e)" and "s \<in> set (crawl_states e base_url)"
    and "u \<in> set (visited s) \<union> set (urls_to_visit s)" and "u \<noteq> base_url"
  shows "\<exists>d. netloc e base_url = Some d \<and> netloc e u = Some d"
  using crawl_states_same_domain_inv [OF assms(1,2)] assms(3,4)
  by (auto simp: same_domain_inv_def)

theorem crawl_stays_on_domain_witness:
  "set_iter_ok (set_iter demo_env)
   \<and> crawl_states demo_env demo_base ! 1 \<in> set (crawl_states demo_env demo_base)
   \<and> ustr ''http://a.com/drinks''
        \<in> set (visited (crawl_states demo_env demo_base ! 1))
           \<union> set (urls_to_visit (crawl_states demo_env demo_base ! 1))
   \<and> ustr ''http://a.com/drinks'' \<noteq> demo_base
   \<and> (\<exists>d. netloc demo_env demo_base = Some d
           \<and> netloc demo_env (ustr ''http://a.com/drinks'') = Some d)"
proof -
  have h1: "set_iter_ok (set_iter demo_env)"
    by (simp add: demo_env_def set_iter_ok_remdups)
  have h2: "crawl_states demo_env demo_base ! 1 \<in> set (crawl_states demo_env demo_base)"
    by (simp add: demo_states)
  have h3: "ustr ''http://a.com/drinks''
        \<in> set (visited (crawl_states demo_env demo_base ! 1))
           \<union> set (urls_to_visit (crawl_states demo_env demo_base ! 1))"
    by (simp add: demo_states)
  have h4: "ustr ''http://a.com/drinks'' \<noteq> demo_base"
    by (simp add: demo_base_def ustr_inject)
  from crawl_stays_on_domain [OF h1 h2 h3 h4] h1 h2 h3 h4 show ?thesis by blast
qed

lemma enqueue_related_keeps: "set q \<subseteq> set (enqueue_related vis q rs)"
  by (simp add: enqueue_related_set)

lemma crawl_step_keeps_queued:
  "set (urls_to_visit s) \<subseteq> set (visited (crawl_step e b s)) \<union> set (urls_to_visit (crawl_step e b s))"
proof (cases "urls_to_visit s")
  case Nil
  then show ?thesis by simp
next
  case (Cons u rest)
  show ?thesis
  proof (cases "u \<in> set (visited s)")
    case True
    with Cons show ?thesis by (auto simp: crawl_step_skip)
  next
    case False
    have "set rest \<subseteq> set (urls_to_visit (crawl_step e b s))"
      using crawl_step_queue [OF Cons False, of e b] enqueue_related_keeps enqueue_discovered_keeps
      by (elim disjE exE conjE) simp_all
    with Cons crawl_step_visited [OF Cons False, of e b] show ?thesis by auto
  qed
qed

lemma crawl_trace_keeps_queued:
  assumes "s' \<in> set (crawl_trace e b s)"
  shows "set (urls_to_visit s) \<subseteq> set (visited s') \<union> set (urls_to_visit s')"
  using assms
proof (rule crawl_trace_invariant
    [where P = "\<lambda>t. set (urls_to_visit s) \<subseteq> set (visited t) \<union> set (urls_to_visit t)"])
  show "set (urls_to_visit s) \<subseteq> set (visited s) \<union> set (urls_to_visit s)" by simp
next
  fix t :: crawl_state
  assume "set (urls_to_visit s) \<subseteq> set (visited t) \<union> set (urls_to_visit t)"
  with crawl_step_visited_mono [of t e b] crawl_step_keeps_queued [of t e b]
  show "set (urls_to_visit s)
          \<subseteq> set (visited (crawl_step e b t)) \<union> set (urls_to_visit (crawl_step e b t))"
    by blast
qed

lemma crawl_trace_trans:
  assumes "s \<in> set (crawl_trace e b s0)" and "s' \<in> set (crawl_trace e b s)"
  shows "s' \<in> set (crawl_trace e b s0)"
proof -
  from assms(1) obtain i where i: "i < length (crawl_trace e b s0)"
    and s: "crawl_trace e b s0 ! i = s"
    by (auto simp: in_set_conv_nth)
  from crawl_trace_drop [OF i] s assms(2) have "s' \<in> set (drop i (crawl_trace e b s0))"
    by simp
  then show ?thesis by (rule in_set_dropD)
qed

text \<open>
  Claim C10: in every state of a crawl the queue has no duplicates and shares no URL
  with the visited set; so whenever the loop runs its body, the URL it pops is not
  visited yet, and the branch \<open>if current_url in visited: continue\<close> is not taken.
  A queued URL stays queued until it is visited, and in no later state is a visited URL
  in the queue: every URL is enqueued at most once.
\<close>

theorem frontier_distinct_disjoint:
  assumes "s \<in> set (crawl_states e base_url)"
  shows "distinct (urls_to_visit s)
       \<and> set (urls_to_visit s) \<inter> set (visited s) = {}
       \<and> (crawl_cond s \<longrightarrow>
            (\<exists>u rest. urls_to_visit s = u # rest \<and> u \<notin> set (visited s)
               \<and> visited (crawl_step e base_url s) = visited s @ [u]))
       \<and> (\<forall>s' \<in> set (crawl_trace e base_url s).
             set (urls_to_visit s) \<subseteq> set (visited s') \<union> set (urls_to_visit s')
             \<and> set (visited s) \<inter> set (urls_to_visit s') = {})"
proof -
  from assms have inv: "frontier_inv s"
    unfolding crawl_states_def by (rule crawl_trace_frontier_inv)
  have pop: "\<exists>u rest. urls_to_visit s = u # rest \<and> u \<notin> set (visited s)
               \<and> visited (crawl_step e base_url s) = visited s @ [u]" if "crawl_cond s"
  proof -
    from that obtain u rest where q: "urls_to_visit s = u # rest"
      by (cases "urls_to_visit s") (auto simp: crawl_cond_def)
    with inv have "u \<notin> set (visited s)" by (auto simp: frontier_inv_def)
    with q crawl_step_visited [OF q this] show ?thesis by simp
  qed
  have later: "set (urls_to_visit s) \<subseteq> set (visited s') \<union> set (urls_to_visit s')
             \<and> set (visited s) \<inter> set (urls_to_visit s') = {}"
    if s': "s' \<in> set (crawl_trace e base_url s)" for s'
  proof -
    from assms s' have "s' \<in> set (crawl_trace e base_url (initial_state base_url))"
      unfolding crawl_states_def by (rule crawl_trace_trans)
    then have "frontier_inv s'" by (rule crawl_trace_frontier_inv)
    with crawl_trace_visited_mono [OF s'] crawl_trace_keeps_queued [OF s']
    show ?thesis by (auto simp: frontier_inv_def)
  qed
  from inv pop later show ?thesis by (auto simp: frontier_inv_def)
qed

theorem frontier_distinct_disjoint_witness:
  "crawl_states demo_env demo_base ! 2 \<in> set (crawl_states demo_env demo_base)
   \<and> crawl_cond (crawl_states demo_env demo_base ! 2)
   \<and> crawl_states demo_env demo_base ! 4
        \<in> set (crawl_trace demo_env demo_base (crawl_states demo_env demo_base ! 2))
   \<and> distinct (urls_to_visit (crawl_states demo_env demo_base ! 2))
   \<and> set (urls_to_visit (crawl_states demo_env demo_base ! 2))
        \<inter> set (visited (crawl_states demo_env demo_base ! 2)) = {}
   \<and> (\<exists>u rest. urls_to_visit (crawl_states demo_env demo_base ! 2) = u # rest
          \<and> u \<notin> set (visited (crawl_states demo_env demo_base ! 2))
          \<and> visited (crawl_step demo_env demo_base (crawl_states demo_env demo_base ! 2))
               = visited (crawl_states demo_env demo_base ! 2) @ [u])
   \<and> set (urls_to_visit (crawl_states demo_env demo_base ! 2))
        \<subseteq> set (visited (crawl_states demo_env demo_base ! 4))
           \<union> set (urls_to_visit (crawl_states demo_env demo_base ! 4))
   \<and> set (visited (crawl_states demo_env demo_base ! 2))
        \<inter> set (urls_to_visit (crawl_states demo_env demo_base ! 4)) = {}"
proof -
  let ?tr = "crawl_states demo_env demo_base"
  have h: "?tr ! 2 \<in> set ?tr"
    by (simp add: demo_states)
  have c: "crawl_cond (?tr ! 2)"
    by (simp add: demo_states crawl_cond_def max_pages_def ustr_inject)
  have "(2::nat) \<le> 4" "4 < length (crawl_trace demo_env demo_base (initial_state demo_base))"
    by (simp_all add: demo_trace)
  then have "crawl_trace demo_env demo_base (initial_state demo_base) ! 4
      \<in> set (crawl_trace demo_env demo_base
               (crawl_trace demo_env demo_base (initial_state demo_base) ! 2))"
    by (rule crawl_trace_later)
  then have l: "?tr ! 4 \<in> set (crawl_trace demo_env demo_base (?tr ! 2))"
    by (simp only: crawl_states_def)
  from frontier_distinct_disjoint [OF h] h c l show ?thesis by blast
qed

subsection \<open>Single pages\<close>




text \<open>
  Claim C6, as the code has it: when the lower-cased URL string that is dequeued ends
  in \<open>.pdf\<close>, the iteration marks it visited, extracts the PDF text, appends a
  snippet only when that text is not empty, and leaves the rest of the queue as it is:
  nothing is enqueued.  When the request or the extraction raises, or pdfminer is
  missing, the text is empty and no snippet is appended; the loop goes on.
\<close>

theorem pdf_page_is_leaf:
  assumes "urls_to_visit s = u # rest" and "u \<notin> set (visited s)"
    and "endswith (lower u) (ustr ''.pdf'')"
  shows "crawl_step e base_url s =
           s\<lparr>visited := visited s @ [u], urls_to_visit := rest,
             all_snippets :=
               (if extract_text_from_pdf_url e u \<noteq> []
                then all_snippets s @ [(u, extract_text_from_pdf_url e u)]
                else all_snippets s)\<rparr>
       \<and> (page_fails e u \<or> extract_pdf_text e = None
             \<longrightarrow> extract_text_from_pdf_url e u = []
                 \<and> all_snippets (crawl_step e base_url s) = all_snippets s)"
  using assms
  by (auto simp: crawl_step_def Let_def page_fails_def extract_text_from_pdf_url_def
           split: option.splits)

theorem pdf_page_is_leaf_witness:
  "crawl_step demo_env_no_pdfminer demo_base
     \<lparr>visited = [ustr ''http://a.com/''],
      urls_to_visit = [ustr ''http://a.com/menu.pdf'', ustr ''http://a.com/drinks''],
      all_snippets = [(ustr ''http://a.com/'', ustr ''Welcome'')]\<rparr>
   = \<lparr>visited = [ustr ''http://a.com/'', ustr ''http://a.com/menu.pdf''],
      urls_to_visit = [ustr ''http://a.com/drinks''],
      all_snippets = [(ustr ''http://a.com/'', ustr ''Welcome'')]\<rparr>
   \<and> endswith (lower (ustr ''http://a.com/menu.pdf'')) (ustr ''.pdf'')
   \<and> extract_pdf_text demo_env_no_pdfminer = None
   \<and> extract_text_from_pdf_url demo_env_no_pdfminer (ustr ''http://a.com/menu.pdf'') = []"
proof -
  let ?s = "\<lparr>visited = [ustr ''http://a.com/''],
      urls_to_visit = [ustr ''http://a.com/menu.pdf'', ustr ''http://a.com/drinks''],
      all_snippets = [(ustr ''http://a.com/'', ustr ''Welcome'')]\<rparr>"
  have h1: "urls_to_visit ?s = ustr ''http://a.com/menu.pdf'' # [ustr ''http://a.com/drinks'']"
    by simp
  have h2: "ustr ''http://a.com/menu.pdf'' \<notin> set (visited ?s)"
    by (simp add: ustr_inject)
  have h3: "endswith (lower (ustr ''http://a.com/menu.pdf'')) (ustr ''.pdf'')"
    by (simp add: demo_is_pdf)
  have h4: "extract_pdf_text demo_env_no_pdfminer = None"
    by (simp add: demo_env_no_pdfminer_def)
  from pdf_page_is_leaf [OF h1 h2 h3, of demo_env_no_pdfminer demo_base] h3 h4
  show ?thesis by simp
qed

text \<open>
  Claim C6 as stated fails where the path of the URL ends in \<open>.pdf\<close> and the URL
  does not: with a query string after the path, the page is fetched and parsed as
  markup, its text is appended whatever it is, and its links are enqueued.
\<close>

theorem pdf_path_with_query_counterexample:
  "endswith (lower (spec_url_path pdf_query_url)) (ustr ''.pdf'')
   \<and> crawl_step pdf_query_env demo_base
        \<lparr>visited = [demo_base], urls_to_visit = [pdf_query_url],
         all_snippets = []\<rparr>
     = \<lparr>visited = [demo_base, pdf_query_url],
        urls_to_visit = [ustr ''http://a.com/specials''],
        all_snippets = [(pdf_query_url, ustr ''%PDF-1.4'')]\<rparr>"
proof
  show "endswith (lower (spec_url_path pdf_query_url)) (ustr ''.pdf'')"
    unfolding pdf_query_url_def
    by (simp add: spec_url_path_def spec_strip_scheme_def score_eval Let_def)
  have np: "endswith (lower pdf_query_url) (ustr ''.pdf'') = False"
    unfolding pdf_query_url_def by (simp add: score_eval)
  have sc: "score_url (ustr ''http://a.com/specials'') = 3"
    by (simp add: demo_scores)
  show "crawl_step pdf_query_env demo_base
        \<lparr>visited = [demo_base], urls_to_visit = [pdf_query_url],
         all_snippets = []\<rparr>
     = \<lparr>visited = [demo_base, pdf_query_url],
        urls_to_visit = [ustr ''http://a.com/specials''],
        all_snippets = [(pdf_query_url, ustr ''%PDF-1.4'')]\<rparr>"
    using np sc unfolding pdf_query_url_def demo_base_def
    by (simp add: crawl_step_def pdf_query_env_def pdf_query_url_def demo_env_def
          demo_urljoin_def demo_netloc_def ustr_inject Let_def)
qed



subsection \<open>The expansion of the entry page\<close>

lemma set_iter_ok_rev_remdups: "set_iter_ok (rev \<circ> remdups)"
  by (simp add: set_iter_ok_def)


text \<open>The ranking, for any iteration order.\<close>

lemma ranked_props:
  assumes "distinct L"
  defines "F \<equiv> filter (\<lambda>u. 0 < score_url u) (sorted_by_score_desc L)"
  shows "distinct F" and "set F = {u \<in> set L. 0 < score_url u}"
    and "sorted (map (\<lambda>u. - score_url u) F)"
    and "filter (\<lambda>u. score_url u = k) F = filter (\<lambda>u. 0 < score_url u \<and> score_url u = k) L"
proof -
  show "distinct F" using assms by (simp add: sorted_by_score_desc_def)
  show "set F = {u \<in> set L. 0 < score_url u}"
    by (auto simp: F_def sorted_by_score_desc_def)
  show "sorted (map (\<lambda>u. - score_url u) F)"
    unfolding F_def sorted_by_score_desc_def
    by (rule sorted_filter) (rule sorted_sort_key)
  have "filter (\<lambda>u. score_url u = k) F
        = filter (\<lambda>u. 0 < score_url u) (filter (\<lambda>u. - score_url u = - k)
            (sort_key (\<lambda>u. - score_url u) L))"
    by (simp add: F_def sorted_by_score_desc_def conj_commute)
  also have "\<dots> = filter (\<lambda>u. 0 < score_url u) (filter (\<lambda>u. - score_url u = - k) L)"
    by (simp only: sort_key_stable)
  finally show "filter (\<lambda>u. score_url u = k) F
        = filter (\<lambda>u. 0 < score_url u \<and> score_url u = k) L"
    by (simp add: conj_commute)
qed








section \<open>The pattern and the candidates, proved\<close>

subsection \<open>The language of the pattern\<close>

lemma lang_Seq: "m \<in> lang (Seq a b) \<longleftrightarrow> (\<exists>x y. m = x @ y \<and> x \<in> lang a \<and> y \<in> lang b)"
  by auto

lemma lower_ustr_literal [simp]:
  "lower (ustr ''happy hour'') = ustr ''happy hour''" "lower (ustr ''hh'') = ustr ''hh''"
  by (simp_all add: ustr_def lower_def lower_char_def)

lemma lower_separator_chars:
  "lower_char 45 = 45" "lower_char 8211 = 8211" "lower_char 116 = 116" "lower_char 111 = 111"
  by (simp_all add: lower_char_def)

lemma in_class_separator_chars:
  "in_class separator_chars c \<longleftrightarrow> lower_char c \<in> {45, 8211, 116, 111}"
  by (simp add: separator_chars_def lower_separator_chars)

lemma lang_separator:
  "m \<in> lang separator_plus \<longleftrightarrow> separator_run m"
proof
  assume "m \<in> lang separator_plus"
  then obtain c s where "m = c # s" "in_class separator_chars c"
    "set s \<subseteq> Collect (in_class separator_chars)"
    by (auto simp: separator_plus_def)
  then show "separator_run m"
    unfolding separator_run_def in_class_separator_chars by auto
next
  assume "separator_run m"
  then obtain c s where m: "m = c # s" and "lower_char ` set (c # s) \<subseteq> {45, 8211, 116, 111}"
    by (cases m) (auto simp: separator_run_def)
  then have "in_class separator_chars c" "set s \<subseteq> Collect (in_class separator_chars)"
    unfolding in_class_separator_chars by auto
  with m show "m \<in> lang separator_plus"
    unfolding separator_plus_def
    by (simp only: lang_Seq) (rule exI [of _ "[c]"], rule exI [of _ s], simp)
qed

lemma lang_Space: "w \<in> lang (StarGreedy Space) \<longleftrightarrow> whitespace w"
  by (auto simp: whitespace_def)

lemma lang_indicator:
  "x \<in> lang (Alt (Lit (ustr ''happy hour'')) (Lit (ustr ''hh'')))
     \<longleftrightarrow> lower x = ustr ''happy hour'' \<or> lower x = ustr ''hh''"
  by simp

lemma lang_any: "x \<in> lang (StarLazy AnyChar) \<longleftrightarrow> True"
  by auto

lemma lang_HAPPY_HOUR_REGEX: "m \<in> lang HAPPY_HOUR_REGEX \<longleftrightarrow> happy_hour_excerpt m"
  unfolding HAPPY_HOUR_REGEX_def happy_hour_pattern_def happy_hour_excerpt_def time_range_def
  apply (simp only: lang_Seq lang_separator lang_Space lang_indicator lang_any simp_thms)
  apply (rule iffI)
   apply (elim exE conjE, hypsubst, intro exI conjI, (rule refl | assumption)+)
  apply (elim exE conjE, hypsubst, intro exI conjI, (rule refl | assumption)+)
  done

subsection \<open>The matcher against the language\<close>

lemma lower_length: "lower s = lower p \<Longrightarrow> length s = length p"
  by (metis length_map lower_def)

lemma rmatch_sound:
  "rest \<in> set (rmatch r s) \<Longrightarrow> \<exists>m. s = m @ rest \<and> m \<in> lang r"
proof (induction r s arbitrary: rest rule: rmatch.induct)
  case (1 p s)
  then have "s = take (length p) s @ rest" "lower (take (length p) s) = lower p"
    by (auto split: if_splits)
  then show ?case by auto
next
  case (4 a b s)
  then obtain mid where mid: "mid \<in> set (rmatch a s)" and rest: "rest \<in> set (rmatch b mid)"
    by auto
  from "4.IH"(1) [OF mid] obtain x where x: "s = x @ mid" "x \<in> lang a" by blast
  from "4.IH"(2) [OF mid rest] obtain y where y: "mid = y @ rest" "y \<in> lang b" by blast
  from x y have "s = (x @ y) @ rest" "x @ y \<in> lang (Seq a b)" by auto
  then show ?case by blast
next
  case (8 k c cs)
  show ?case
  proof (cases "rest = c # cs")
    case True
    then show ?thesis by auto
  next
    case False
    with "8.prems" have c: "in_class k c" and "rest \<in> set (rmatch (StarGreedy k) cs)"
      by (auto split: if_splits)
    from "8.IH" [OF this] obtain m where "cs = m @ rest" "m \<in> lang (StarGreedy k)" by blast
    with c have "c # cs = (c # m) @ rest" "c # m \<in> lang (StarGreedy k)" by auto
    then show ?thesis by blast
  qed
next
  case (10 k c cs)
  show ?case
  proof (cases "rest = c # cs")
    case True
    then show ?thesis by auto
  next
    case False
    with "10.prems" have c: "in_class k c" and "rest \<in> set (rmatch (StarLazy k) cs)"
      by (auto split: if_splits)
    from "10.IH" [OF this] obtain m where "cs = m @ rest" "m \<in> lang (StarLazy k)" by blast
    with c have "c # cs = (c # m) @ rest" "c # m \<in> lang (StarLazy k)" by auto
    then show ?thesis by blast
  qed
qed (auto split: if_splits)

lemma rmatch_star_greedy_complete:
  "set m \<subseteq> Collect (in_class k) \<Longrightarrow> rest \<in> set (rmatch (StarGreedy k) (m @ rest))"
proof (induction m)
  case Nil
  show ?case by (cases rest) auto
next
  case (Cons c m)
  then show ?case by auto
qed

lemma rmatch_star_lazy_complete:
  "set m \<subseteq> Collect (in_class k) \<Longrightarrow> rest \<in> set (rmatch (StarLazy k) (m @ rest))"
proof (induction m)
  case Nil
  show ?case by (cases rest) auto
next
  case (Cons c m)
  then show ?case by auto
qed

lemma rmatch_complete:
  "m \<in> lang r \<Longrightarrow> rest \<in> set (rmatch r (m @ rest))"
proof (induction r arbitrary: m rest)
  case (Lit p)
  then have "lower m = lower p" by simp
  with lower_length [OF this] show ?case by simp
next
  case (Seq a b)
  then obtain x y where m: "m = x @ y" and x: "x \<in> lang a" and y: "y \<in> lang b" by auto
  from Seq.IH(1) [OF x, of "y @ rest"] Seq.IH(2) [OF y, of rest] m
  show ?case by auto
next
  case (StarGreedy k)
  then show ?case by (simp add: rmatch_star_greedy_complete)
next
  case (StarLazy k)
  then show ?case by (simp add: rmatch_star_lazy_complete)
qed auto

lemma finditer_sound:
  "m \<in> set (finditer r s) \<Longrightarrow> m \<in> lang r \<and> sublist m s"
proof (induction r s rule: finditer.induct)
  case (1 r s)
  show ?case
  proof (cases "rmatch r s")
    case Nil
    show ?thesis
    proof (cases s)
      case Nil
      with \<open>rmatch r s = []\<close> "1.prems" show ?thesis
        by (subst (asm) finditer.simps) simp
    next
      case (Cons c cs)
      with \<open>rmatch r s = []\<close> "1.prems" have "m \<in> set (finditer r cs)"
        by (subst (asm) finditer.simps) simp
      from "1.IH"(1) [OF \<open>rmatch r s = []\<close> Cons this] Cons show ?thesis
        by (auto simp: sublist_Cons_right)
    qed
  next
    case (Cons rest others)
    then have "rest \<in> set (rmatch r s)" by simp
    from rmatch_sound [OF this] obtain m0 where m0: "s = m0 @ rest" "m0 \<in> lang r" by blast
    then have tk: "take (length s - length rest) s = m0" by simp
    show ?thesis
    proof (cases "length rest < length s")
      case True
      with Cons "1.prems" tk have "m = m0 \<or> m \<in> set (finditer r rest)"
        by (subst (asm) finditer.simps) auto
      then show ?thesis
      proof
        assume "m = m0" with m0 show ?thesis by auto
      next
        assume "m \<in> set (finditer r rest)"
        from "1.IH"(2) [OF Cons True this] m0 show ?thesis
          by (auto intro: sublist_order.order.trans)
      qed
    next
      case False
      with m0 have e: "m0 = []" by auto
      show ?thesis
      proof (cases s)
        case Nil
        with Cons False "1.prems" have "m = []"
          by (subst (asm) finditer.simps) simp
        with e m0 show ?thesis by simp
      next
        case (Cons c cs)
        with \<open>rmatch r s = rest # others\<close> False "1.prems"
        have "m = [] \<or> m \<in> set (finditer r cs)"
          by (subst (asm) finditer.simps) auto
        then show ?thesis
        proof
          assume "m = []" with e m0 show ?thesis by simp
        next
          assume "m \<in> set (finditer r cs)"
          from "1.IH"(3) [OF \<open>rmatch r s = rest # others\<close> False Cons this] Cons
          show ?thesis by (auto simp: sublist_Cons_right)
        qed
      qed
    qed
  qed
qed

lemma finditer_complete:
  "m \<in> lang r \<Longrightarrow> finditer r (pre @ m @ post) \<noteq> []"
proof (induction pre)
  case Nil
  from rmatch_complete [OF Nil, of post] obtain rest others
    where "rmatch r (m @ post) = rest # others"
    by (cases "rmatch r (m @ post)") auto
  then show ?case
    by (subst finditer.simps) (simp split: list.splits)
next
  case (Cons c pre)
  show ?case
  proof (cases "rmatch r ((c # pre) @ m @ post)")
    case Nil
    with Cons show ?thesis by (subst finditer.simps) simp
  next
    case (Cons rest others)
    then show ?thesis by (subst finditer.simps) (simp split: list.splits)
  qed
qed

lemma finditer_nonempty_iff:
  "finditer r s \<noteq> [] \<longleftrightarrow> (\<exists>m. m \<in> lang r \<and> sublist m s)"
proof
  assume "finditer r s \<noteq> []"
  then obtain m where "m \<in> set (finditer r s)" by (cases "finditer r s") auto
  from finditer_sound [OF this] show "\<exists>m. m \<in> lang r \<and> sublist m s" by blast
next
  assume "\<exists>m. m \<in> lang r \<and> sublist m s"
  then obtain m pre post where "m \<in> lang r" "s = pre @ m @ post"
    by (auto simp: sublist_def)
  with finditer_complete show "finditer r s \<noteq> []" by blast
qed

subsection \<open>Concrete texts\<close>

lemmas regex_eval = HAPPY_HOUR_REGEX_def happy_hour_pattern_def time_of_day_def am_pm_def
  separator_plus_def separator_chars_def unicode_whitespace_def ustr_def lower_def
  lower_char_def





lemma excerpt_has_h: "happy_hour_excerpt m \<Longrightarrow> 104 \<in> lower_char ` set m"
proof -
  assume "happy_hour_excerpt m"
  then obtain ind gap x where m: "m = ind @ gap @ x"
    and ind: "lower ind = ustr ''happy hour'' \<or> lower ind = ustr ''hh''"
    by (auto simp: happy_hour_excerpt_def)
  from ind have "104 \<in> set (lower ind)" by (auto simp: ustr_def)
  then have "104 \<in> lower_char ` set ind" by (simp add: lower_def)
  with m show ?thesis by auto
qed

lemma no_excerpt_in_filler: "finditer HAPPY_HOUR_REGEX (replicate n 120) = []"
proof (rule ccontr)
  assume "finditer HAPPY_HOUR_REGEX (replicate n 120) \<noteq> []"
  then obtain m where m: "happy_hour_excerpt m" and sub: "sublist m (replicate n 120)"
    by (auto simp: finditer_nonempty_iff lang_HAPPY_HOUR_REGEX)
  from sub have "set m \<subseteq> set (replicate n (120::nat))" by (rule set_mono_sublist)
  then have "set m \<subseteq> {120}" by (auto split: if_splits)
  then have "lower_char ` set m \<subseteq> {120}" by (auto simp: lower_char_def)
  with excerpt_has_h [OF m] show False by auto
qed

subsection \<open>Candidates\<close>

lemma primary_candidates_single:
  "primary_candidates r [(u, txt)]
     = map (\<lambda>excerpt. \<lparr>cand_url = u, cand_text = excerpt\<rparr>) (finditer r txt)"
  by (simp add: primary_candidates_def)






text \<open>
  Claim C9: when the primary strategy finds no candidate in any snippet, the candidates
  are one per snippet, in order, each with the URL of its snippet and the first 2000
  characters of its text; otherwise they are those of the primary strategy.  The prompt
  blocks are those of the first 8 candidates, in order.
\<close>

theorem fallback_and_cap:
  "(primary_candidates HAPPY_HOUR_REGEX snippets = [] \<longrightarrow>
      select_candidates snippets = map fallback_candidate snippets
      \<and> length (select_candidates snippets) = length snippets
      \<and> (\<forall>i < length snippets.
           cand_url (select_candidates snippets ! i) = fst (snippets ! i)
           \<and> cand_text (select_candidates snippets ! i) = take 2000 (snd (snippets ! i))
           \<and> length (cand_text (select_candidates snippets ! i)) \<le> 2000))
   \<and> (primary_candidates HAPPY_HOUR_REGEX snippets \<noteq> [] \<longrightarrow>
        select_candidates snippets = primary_candidates HAPPY_HOUR_REGEX snippets)
   \<and> length (prompt_blocks candidates) = min 8 (length candidates)
   \<and> (\<forall>i < length (prompt_blocks candidates).
         prompt_blocks candidates ! i = prompt_block (candidates ! i))"
proof (intro conjI impI allI)
  assume e: "primary_candidates HAPPY_HOUR_REGEX snippets = []"
  then show sel: "select_candidates snippets = map fallback_candidate snippets"
    by (simp add: select_candidates_def)
  then show "length (select_candidates snippets) = length snippets" by simp
  fix i assume i: "i < length snippets"
  obtain u tx where sn: "snippets ! i = (u, tx)" by (cases "snippets ! i")
  with sel i show "cand_url (select_candidates snippets ! i) = fst (snippets ! i)"
    and "cand_text (select_candidates snippets ! i) = take 2000 (snd (snippets ! i))"
    and "length (cand_text (select_candidates snippets ! i)) \<le> 2000"
    by simp_all
next
  assume "primary_candidates HAPPY_HOUR_REGEX snippets \<noteq> []"
  then show "select_candidates snippets = primary_candidates HAPPY_HOUR_REGEX snippets"
    by (simp add: select_candidates_def Let_def)
next
  show "length (prompt_blocks candidates) = min 8 (length candidates)"
    by (simp add: prompt_blocks_def min.commute)
next
  fix i assume "i < length (prompt_blocks candidates)"
  then show "prompt_blocks candidates ! i = prompt_block (candidates ! i)"
    by (simp add: prompt_blocks_def)
qed

theorem fallback_and_cap_witness:
  "primary_candidates HAPPY_HOUR_REGEX [(demo_base, replicate 2500 120)] = []
   \<and> select_candidates [(demo_base, replicate 2500 120)]
       = [\<lparr>cand_url = demo_base, cand_text = replicate 2000 120\<rparr>]
   \<and> length (prompt_blocks (replicate 9 \<lparr>cand_url = demo_base, cand_text = []\<rparr>)) = 8"
proof -
  let ?sn = "[(demo_base, replicate 2500 (120::nat))]"
  let ?cs = "replicate 9 \<lparr>cand_url = demo_base, cand_text = []\<rparr>"
  note inst = fallback_and_cap [of ?sn ?cs]
  have h: "primary_candidates HAPPY_HOUR_REGEX ?sn = []"
    by (simp add: primary_candidates_single no_excerpt_in_filler)
  from inst have "primary_candidates HAPPY_HOUR_REGEX ?sn = [] \<longrightarrow>
      select_candidates ?sn = map fallback_candidate ?sn
      \<and> length (select_candidates ?sn) = length ?sn
      \<and> (\<forall>i < length ?sn.
           cand_url (select_candidates ?sn ! i) = fst (?sn ! i)
           \<and> cand_text (select_candidates ?sn ! i) = take 2000 (snd (?sn ! i))
           \<and> length (cand_text (select_candidates ?sn ! i)) \<le> 2000)"
    by (rule conjunct1)
  with h have "select_candidates ?sn = map fallback_candidate ?sn" by blast
  then have sel: "select_candidates ?sn
       = [\<lparr>cand_url = demo_base, cand_text = replicate 2000 120\<rparr>]"
    by simp
  from inst have "length (prompt_blocks ?cs) = min 8 (length ?cs)" by blast
  then have cap: "length (prompt_blocks ?cs) = 8" by simp
  from h sel cap show ?thesis by blast
qed

subsection \<open>Two runs on the same site\<close>

lemma collect_candidates_set_iter:
  "collect_candidates (e\<lparr>set_iter := f\<rparr>) b d hrefs acc = collect_candidates e b d hrefs acc"
  by (induction hrefs arbitrary: acc) (simp_all cong: option.case_cong if_cong)

lemma enqueue_discovered_set_iter:
  "enqueue_discovered (e\<lparr>set_iter := f\<rparr>) b u vis q hrefs = enqueue_discovered e b u vis q hrefs"
  by (induction hrefs arbitrary: q) (simp_all cong: option.case_cong if_cong)

lemma extract_text_from_pdf_url_set_iter:
  "extract_text_from_pdf_url (e\<lparr>set_iter := f\<rparr>) u = extract_text_from_pdf_url e u"
  by (simp add: extract_text_from_pdf_url_def cong: option.case_cong)

lemma ranking_unique:
  assumes f: "set_iter_ok f" and g: "set_iter_ok g"
    and inj: "\<forall>u \<in> set cs. \<forall>v \<in> set cs. 0 < score_url u \<and> score_url u = score_url v \<longrightarrow> u = v"
  shows "filter (\<lambda>u. 0 < score_url u) (sorted_by_score_desc (f cs))
       = filter (\<lambda>u. 0 < score_url u) (sorted_by_score_desc (g cs))"
proof -
  let ?k = "\<lambda>u. - score_url u"
  let ?F = "filter (\<lambda>u. 0 < score_url u) (sorted_by_score_desc (f cs))"
  let ?G = "filter (\<lambda>u. 0 < score_url u) (sorted_by_score_desc (g cs))"
  from f have df: "distinct (f cs)" and sf: "set (f cs) = set cs" by (simp_all add: set_iter_ok_def)
  from g have dg: "distinct (g cs)" and sg: "set (g cs) = set cs" by (simp_all add: set_iter_ok_def)
  note F = ranked_props [OF df] and G = ranked_props [OF dg]
  have sets: "set ?F = set ?G" using F(2) G(2) sf sg by simp
  have sub: "set ?F \<subseteq> {u \<in> set cs. 0 < score_url u}" using F(2) sf by simp
  have inj_on: "inj_on ?k (set ?F \<union> set ?G)"
    unfolding sets [symmetric] using sub inj by (auto simp: inj_on_def)
  then have iF: "inj_on ?k (set ?F)" and iG: "inj_on ?k (set ?G)"
    by (auto simp: inj_on_def)
  show ?thesis
  proof (rule map_sorted_distinct_set_unique [OF inj_on])
    show "sorted (map ?k ?F)" by (rule F(3))
    show "sorted (map ?k ?G)" by (rule G(3))
    show "distinct (map ?k ?F)" using F(1) iF by (simp add: distinct_map)
    show "distinct (map ?k ?G)" using G(1) iG by (simp add: distinct_map)
    show "set ?F = set ?G" by (rule sets)
  qed
qed

lemma crawl_step_set_iter:
  assumes f: "set_iter_ok f" and g: "set_iter_ok g" and tf: "tie_free e b"
  shows "crawl_step (e\<lparr>set_iter := f\<rparr>) b s = crawl_step (e\<lparr>set_iter := g\<rparr>) b s"
proof -
  have rel: "find_related_pages (e\<lparr>set_iter := f\<rparr>) hrefs b
           = find_related_pages (e\<lparr>set_iter := g\<rparr>) hrefs b"
    if c: "requests_get_page e b = Some c" and h: "extract_text_from_html e c = Some (tx, hrefs)"
    for c tx hrefs
  proof (cases "netloc e b")
    case None
    then show ?thesis by (simp add: find_related_pages_def)
  next
    case (Some d)
    show ?thesis
    proof (cases "collect_candidates e b d hrefs []")
      case None
      with Some show ?thesis
        by (simp add: find_related_pages_def collect_candidates_set_iter)
    next
      case (Some cs)
      with \<open>netloc e b = Some d\<close> c h have "entry_links e b = cs"
        by (simp add: entry_links_def)
      with tf have "\<forall>u \<in> set cs. \<forall>v \<in> set cs.
          0 < score_url u \<and> score_url u = score_url v \<longrightarrow> u = v"
        by (simp add: tie_free_def)
      from ranking_unique [OF f g this] Some \<open>netloc e b = Some d\<close> show ?thesis
        by (simp add: find_related_pages_def collect_candidates_set_iter)
    qed
  qed
  show ?thesis
    by (simp add: crawl_step_def Let_def rel enqueue_discovered_set_iter
          extract_text_from_pdf_url_set_iter
        split: list.splits option.splits prod.splits)
qed

lemma crawl_loop_cong:
  "(\<And>s. crawl_step e1 b s = crawl_step e2 b s) \<Longrightarrow> crawl_loop e1 b s = crawl_loop e2 b s"
proof (induction e1 b s rule: crawl_loop.induct)
  case (1 e1 b s)
  show ?case
  proof (cases "crawl_cond s")
    case True
    from "1.IH" [OF True "1.prems"] "1.prems" [of s] True show ?thesis
      by (subst crawl_loop.simps, subst (2) crawl_loop.simps) simp
  next
    case False
    then show ?thesis by (subst crawl_loop.simps, subst (2) crawl_loop.simps) simp
  qed
qed

text \<open>
  Claim C5, as the code has it.  Two runs against the same site differ at most in the
  order in which Python iterates \<open>set(candidates)\<close>.  When no two different links of the
  entry page have the same positive score, the order does not matter: both runs yield
  the same snippets and the same candidates.
\<close>

theorem crawl_repeatable_without_ties:
  assumes "set_iter_ok f" and "set_iter_ok g" and "tie_free e base_url"
  shows "scrape_with_crawl (e\<lparr>set_iter := f\<rparr>) base_url
           = scrape_with_crawl (e\<lparr>set_iter := g\<rparr>) base_url
       \<and> select_candidates (scrape_with_crawl (e\<lparr>set_iter := f\<rparr>) base_url)
           = select_candidates (scrape_with_crawl (e\<lparr>set_iter := g\<rparr>) base_url)"
proof -
  have "crawl_loop (e\<lparr>set_iter := f\<rparr>) base_url (initial_state base_url)
      = crawl_loop (e\<lparr>set_iter := g\<rparr>) base_url (initial_state base_url)"
    by (rule crawl_loop_cong) (rule crawl_step_set_iter [OF assms])
  then show ?thesis by (simp add: scrape_with_crawl_def)
qed

theorem crawl_repeatable_without_ties_witness:
  "set_iter_ok remdups \<and> set_iter_ok (rev \<circ> remdups) \<and> tie_free demo_env demo_base
   \<and> entry_links demo_env demo_base
       = [ustr ''http://a.com/about'', ustr ''http://a.com/food'',
          ustr ''http://a.com/happy-hour'', ustr ''http://a.com/menu.pdf'',
          ustr ''http://a.com/drinks'', ustr ''http://a.com/happy-hour'']
   \<and> scrape_with_crawl (demo_env\<lparr>set_iter := remdups\<rparr>) demo_base
       = [(ustr ''http://a.com/'', ustr ''Welcome''),
          (ustr ''http://a.com/happy-hour'', ustr ''Happy Hour runs 3pm-6pm daily''),
          (ustr ''http://a.com/menu.pdf'', ustr ''HH 4 to 7'')]
   \<and> scrape_with_crawl (demo_env\<lparr>set_iter := rev \<circ> remdups\<rparr>) demo_base
       = [(ustr ''http://a.com/'', ustr ''Welcome''),
          (ustr ''http://a.com/happy-hour'', ustr ''Happy Hour runs 3pm-6pm daily''),
          (ustr ''http://a.com/menu.pdf'', ustr ''HH 4 to 7'')]"
proof -
  have links: "entry_links demo_env demo_base
       = [ustr ''http://a.com/about'', ustr ''http://a.com/food'',
          ustr ''http://a.com/happy-hour'', ustr ''http://a.com/menu.pdf'',
          ustr ''http://a.com/drinks'', ustr ''http://a.com/happy-hour'']"
    by (simp add: entry_links_def demo_env_def demo_base_def demo_page_def demo_html_def
          demo_netloc_def demo_urljoin_def ustr_inject)
  have tf: "tie_free demo_env demo_base"
    unfolding tie_free_def links by (simp add: demo_scores ustr_inject)
  have same: "demo_env\<lparr>set_iter := remdups\<rparr> = demo_env"
    by (simp add: demo_env_def)
  have run: "scrape_with_crawl demo_env demo_base
       = [(ustr ''http://a.com/'', ustr ''Welcome''),
          (ustr ''http://a.com/happy-hour'', ustr ''Happy Hour runs 3pm-6pm daily''),
          (ustr ''http://a.com/menu.pdf'', ustr ''HH 4 to 7'')]"
    unfolding scrape_with_crawl_def crawl_loop_last crawl_states_def [symmetric]
    by (simp add: demo_states)
  from crawl_repeatable_without_ties
         [OF set_iter_ok_remdups set_iter_ok_rev_remdups tf]
  have "scrape_with_crawl (demo_env\<lparr>set_iter := remdups\<rparr>) demo_base
      = scrape_with_crawl (demo_env\<lparr>set_iter := rev \<circ> remdups\<rparr>) demo_base"
    by (rule conjunct1)
  with same run set_iter_ok_remdups set_iter_ok_rev_remdups tf links
  show ?thesis by simp
qed

lemmas tie_simps = tie_env_def tie_page_def tie_html_def demo_simps

lemma tie_runs:
  "scrape_with_crawl (tie_env remdups) demo_base
       = [(ustr ''http://a.com/'', ustr ''Welcome''),
          (ustr ''http://a.com/specials'', ustr ''Specials''),
          (ustr ''http://a.com/deals'', ustr ''Deals'')]"
  "scrape_with_crawl (tie_env (rev \<circ> remdups)) demo_base
       = [(ustr ''http://a.com/'', ustr ''Welcome''),
          (ustr ''http://a.com/deals'', ustr ''Deals''),
          (ustr ''http://a.com/specials'', ustr ''Specials'')]"
  by (simp_all add: scrape_with_crawl_def crawl_loop.simps tie_simps)

lemma tie_texts_no_match:
  "finditer HAPPY_HOUR_REGEX (ustr ''Welcome'') = []"
  "finditer HAPPY_HOUR_REGEX (ustr ''Specials'') = []"
  "finditer HAPPY_HOUR_REGEX (ustr ''Deals'') = []"
  by (simp_all add: finditer.simps regex_eval)

text \<open>
  Claim C5 as stated fails when links of the entry page tie: on the site with
  \<open>/specials\<close> and \<open>/deals\<close>, two environments that differ only in the iteration
  order of sets crawl the two pages in different orders, and the snippets and the
  candidates come out in different orders.
\<close>

theorem set_order_changes_crawl_counterexample:
  "tie_env (rev \<circ> remdups) = (tie_env remdups)\<lparr>set_iter := rev \<circ> remdups\<rparr>
   \<and> scrape_with_crawl (tie_env remdups) demo_base
       = [(ustr ''http://a.com/'', ustr ''Welcome''),
          (ustr ''http://a.com/specials'', ustr ''Specials''),
          (ustr ''http://a.com/deals'', ustr ''Deals'')]
   \<and> scrape_with_crawl (tie_env (rev \<circ> remdups)) demo_base
       = [(ustr ''http://a.com/'', ustr ''Welcome''),
          (ustr ''http://a.com/deals'', ustr ''Deals''),
          (ustr ''http://a.com/specials'', ustr ''Specials'')]
   \<and> select_candidates (scrape_with_crawl (tie_env remdups) demo_base)
       = [\<lparr>cand_url = ustr ''http://a.com/'', cand_text = ustr ''Welcome''\<rparr>,
          \<lparr>cand_url = ustr ''http://a.com/specials'', cand_text = ustr ''Specials''\<rparr>,
          \<lparr>cand_url = ustr ''http://a.com/deals'', cand_text = ustr ''Deals''\<rparr>]
   \<and> select_candidates (scrape_with_crawl (tie_env (rev \<circ> remdups)) demo_base)
       = [\<lparr>cand_url = ustr ''http://a.com/'', cand_text = ustr ''Welcome''\<rparr>,
          \<lparr>cand_url = ustr ''http://a.com/deals'', cand_text = ustr ''Deals''\<rparr>,
          \<lparr>cand_url = ustr ''http://a.com/specials'', cand_text = ustr ''Specials''\<rparr>]"
proof -
  have e: "tie_env (rev \<circ> remdups) = (tie_env remdups)\<lparr>set_iter := rev \<circ> remdups\<rparr>"
    by (simp add: tie_env_def)
  have short: "take 2000 (ustr ''Welcome'') = ustr ''Welcome''"
    "take 2000 (ustr ''Specials'') = ustr ''Specials''"
    "take 2000 (ustr ''Deals'') = ustr ''Deals''"
    by (simp_all add: ustr_def)
  have c1: "select_candidates (scrape_with_crawl (tie_env remdups) demo_base)
       = [\<lparr>cand_url = ustr ''http://a.com/'', cand_text = ustr ''Welcome''\<rparr>,
          \<lparr>cand_url = ustr ''http://a.com/specials'', cand_text = ustr ''Specials''\<rparr>,
          \<lparr>cand_url = ustr ''http://a.com/deals'', cand_text = ustr ''Deals''\<rparr>]"
    by (simp add: tie_runs select_candidates_def primary_candidates_def tie_texts_no_match short)
  have c2: "select_candidates (scrape_with_crawl (tie_env (rev \<circ> remdups)) demo_base)
       = [\<lparr>cand_url = ustr ''http://a.com/'', cand_text = ustr ''Welcome''\<rparr>,
          \<lparr>cand_url = ustr ''http://a.com/deals'', cand_text = ustr ''Deals''\<rparr>,
          \<lparr>cand_url = ustr ''http://a.com/specials'', cand_text = ustr ''Specials''\<rparr>]"
    by (simp add: tie_runs select_candidates_def primary_candidates_def tie_texts_no_match short)
  from e tie_runs c1 c2 show ?thesis by blast
qed

end
